theory Spec2Isabelle
  imports Complex_Main
begin

section \<open>Data model (types.ts)\<close>

text \<open>
  Identifiers are JavaScript strings (produced by \<^verbatim>\<open>uuidv4()\<close>), nullable
  references are \<open>string option\<close>, and every JavaScript \<^verbatim>\<open>number\<close> is a
  \<open>real\<close>: the arithmetic of the viewport and of the layout is exact here,
  not IEEE-754.
\<close>

datatype role = User | Model

record message =
  msg_id :: string
  msg_role :: role
  msg_text :: string
  msg_timestamp :: int

record column =
  col_id :: string
  col_title :: string
  parentId :: "string option"
  parentMessageId :: "string option"
  contextSnippet :: "string option"
  messages :: "message list"
  inputValue :: string
  isThinking :: bool
  isCollapsed :: bool

text \<open>A point or displacement \<^verbatim>\<open>{x, y}\<close>, and a layout entry \<^verbatim>\<open>{x, y, height}\<close>.\<close>

record vec =
  vx :: real
  vy :: real

record pos =
  pos_x :: real
  pos_y :: real
  pos_height :: real

text \<open>
  JavaScript truthiness of a \<^verbatim>\<open>string | null\<close> value, as tested by
  \<^verbatim>\<open>while (currentId)\<close>, \<^verbatim>\<open>if (nextCol.contextSnippet)\<close>,
  \<^verbatim>\<open>col.parentId ? ... : ...\<close>: \<^verbatim>\<open>null\<close> and the empty string are falsy.
\<close>

definition truthy :: "string option \<Rightarrow> bool" where
  "truthy v = (case v of None \<Rightarrow> False | Some s \<Rightarrow> s \<noteq> [])"

text \<open>
  \<^verbatim>\<open>String.prototype.trim\<close> on the white space and line terminators that a
  character of \<open>string\<close> can be (TAB, LF, VT, FF, CR, SP and the no-break space
  U+00A0); the Unicode spaces beyond U+00FF are not characters of \<open>string\<close>.
\<close>

definition isWhiteSpace :: "char \<Rightarrow> bool" where
  "isWhiteSpace c =
     (c \<in> set [CHR 0x09, CHR 0x0A, CHR 0x0B, CHR 0x0C, CHR 0x0D, CHR 0x20, CHR 0xA0])"

definition trim :: "string \<Rightarrow> string" where
  "trim s = rev (dropWhile isWhiteSpace (rev (dropWhile isWhiteSpace s)))"

text \<open>\<^verbatim>\<open>Array.prototype.findIndex\<close>: the first index that satisfies the test, or \<open>-1\<close>.\<close>

fun findIndex :: "('a \<Rightarrow> bool) \<Rightarrow> 'a list \<Rightarrow> int" where
  "findIndex P [] = -1"
| "findIndex P (x # xs) =
     (if P x then 0 else (let i = findIndex P xs in if i = -1 then -1 else i + 1))"

section \<open>Context Linearizer (services/geminiService.ts)\<close>

text \<open>One entry \<^verbatim>\<open>{role, parts: [{text}]}\<close> of the history sent upstream.\<close>

type_synonym content = "role \<times> string"

definition toContent :: "message \<Rightarrow> content" where
  "toContent msg = (msg_role msg, msg_text msg)"

text \<open>
  The synthetic user prompt
  \<^verbatim>\<open>I want to branch off and discuss specifically about: "<snippet>"\<close>.
\<close>

definition branchPrompt :: "string \<Rightarrow> content" where
  "branchPrompt snippet =
     (User, ''I want to branch off and discuss specifically about: '' @ [CHR 0x22] @ snippet @ [CHR 0x22])"

text \<open>
  Step 1 of \<^verbatim>\<open>buildHistoryForColumn\<close>: the \<^verbatim>\<open>while (currentId)\<close> loop that
  walks \<^verbatim>\<open>parentId\<close> links and \<^verbatim>\<open>unshift\<close>s each column found. On cyclic parent
  links the loop never ends; that is the value \<open>None\<close>.
\<close>

partial_function (option) findPath ::
  "column list \<Rightarrow> string option \<Rightarrow> column list \<Rightarrow> column list option" where
  "findPath columns currentId path =
     (if truthy currentId then
        (case find (\<lambda>c. Some (col_id c) = currentId) columns of
           Some col \<Rightarrow> findPath columns (parentId col) (col # path)
         | None \<Rightarrow> Some path)
      else Some path)"

text \<open>
  Step 2: \<^verbatim>\<open>path.forEach((col, index) => ...)\<close>. A column that is not the last of
  the path contributes \<^verbatim>\<open>col.messages.slice(0, branchIndex + 1)\<close> when the next
  column's \<^verbatim>\<open>parentMessageId\<close> is found (all of its messages otherwise), then the
  synthetic prompt when the next column's \<^verbatim>\<open>contextSnippet\<close> is truthy; the last
  column contributes all of its messages.
\<close>

fun flattenPath :: "column list \<Rightarrow> content list" where
  "flattenPath [] = []"
| "flattenPath [col] = map toContent (messages col)"
| "flattenPath (col # nextCol # rest) =
     (let branchIndex = findIndex (\<lambda>m. Some (msg_id m) = parentMessageId nextCol) (messages col);
          relevantMessages =
            (if branchIndex \<noteq> -1 then take (nat (branchIndex + 1)) (messages col)
             else messages col)
      in map toContent relevantMessages
         @ (if truthy (contextSnippet nextCol) then [branchPrompt (the (contextSnippet nextCol))] else [])
         @ flattenPath (nextCol # rest))"

definition buildHistoryForColumn :: "string \<Rightarrow> column list \<Rightarrow> content list option" where
  "buildHistoryForColumn targetColumnId columns =
     map_option flattenPath (findPath columns (Some targetColumnId) [])"

section \<open>Tree Store operations (App.tsx)\<close>

definition handleToggleCollapse :: "string \<Rightarrow> column list \<Rightarrow> column list" where
  "handleToggleCollapse columnId prev =
     map (\<lambda>col. if col_id col = columnId then col\<lparr>isCollapsed := \<not> isCollapsed col\<rparr> else col) prev"

definition addMessageToColumn :: "string \<Rightarrow> message \<Rightarrow> column list \<Rightarrow> column list" where
  "addMessageToColumn columnId msg prev =
     map (\<lambda>col.
        if col_id col = columnId then
          col\<lparr>messages := messages col @ [msg],
              col_title :=
                (if length (messages col) = 0 \<and> msg_role msg = User \<and> \<not> truthy (parentId col)
                 then (if length (msg_text msg) > 30 then take 30 (msg_text msg) @ ''...''
                       else msg_text msg)
                 else col_title col)\<rparr>
        else col) prev"

text \<open>
  \<^verbatim>\<open>updateLastMessage\<close>: the streamed chunk is appended to the text of the last
  message of the column named, when that message has the role \<^verbatim>\<open>model\<close>.
\<close>

definition updateLastMessage :: "string \<Rightarrow> string \<Rightarrow> column list \<Rightarrow> column list" where
  "updateLastMessage columnId textChunk prev =
     map (\<lambda>col.
        if col_id col = columnId then
          (let msgs = messages col in
           col\<lparr>messages :=
               (if length msgs > 0 \<and> msg_role (msgs ! (length msgs - 1)) = Model
                then msgs[length msgs - 1 :=
                       (msgs ! (length msgs - 1))
                         \<lparr>msg_text := msg_text (msgs ! (length msgs - 1)) @ textChunk\<rparr>]
                else msgs)\<rparr>)
        else col) prev"

definition setThinking :: "string \<Rightarrow> bool \<Rightarrow> column list \<Rightarrow> column list" where
  "setThinking columnId thinking prev =
     map (\<lambda>col. if col_id col = columnId then col\<lparr>isThinking := thinking\<rparr> else col) prev"

text \<open>
  \<^verbatim>\<open>getDescendants\<close> of \<^verbatim>\<open>handleCloseColumn\<close>:
  \<^verbatim>\<open>[id, ...children.flatMap(c => getDescendants(c.id))]\<close>, with the \<^verbatim>\<open>flatMap\<close> as
  a loop over the children. The first argument bounds the depth of the
  recursion; \<open>None\<close> stands for a call stack that is exhausted.
\<close>

fun getDescendants :: "nat \<Rightarrow> column list \<Rightarrow> string \<Rightarrow> string list option"
  and flatMapDescendants :: "nat \<Rightarrow> column list \<Rightarrow> column list \<Rightarrow> string list option"
  where
  "getDescendants 0 columns nodeId = None"
| "getDescendants (Suc depth) columns nodeId =
     (let children = filter (\<lambda>c. parentId c = Some nodeId) columns
      in map_option (\<lambda>below. nodeId # below) (flatMapDescendants depth columns children))"
| "flatMapDescendants depth columns [] = Some []"
| "flatMapDescendants depth columns (c # rest) =
     (case getDescendants depth columns (col_id c) of
        None \<Rightarrow> None
      | Some ds \<Rightarrow> map_option (\<lambda>more. ds @ more) (flatMapDescendants depth columns rest))"

section \<open>Layout Engine (App.tsx)\<close>

definition NODE_WIDTH :: real where "NODE_WIDTH = 450"
definition NODE_GAP_X :: real where "NODE_GAP_X = 150"
definition NODE_GAP_Y :: real where "NODE_GAP_Y = 50"
definition NODE_DEFAULT_HEIGHT :: real where "NODE_DEFAULT_HEIGHT = 200"

type_synonym layout = "string \<rightharpoonup> pos"

definition getChildren :: "column list \<Rightarrow> string option \<Rightarrow> column list" where
  "getChildren columns pid = filter (\<lambda>c. parentId c = pid) columns"

text \<open>
  \<^verbatim>\<open>nodeHeights.get(nodeId) || NODE_DEFAULT_HEIGHT\<close>: a missing height and the
  height \<open>0\<close> fall back to the default.
\<close>

definition heightOf :: "(string \<rightharpoonup> real) \<Rightarrow> string \<Rightarrow> real" where
  "heightOf heights nodeId =
     (case heights nodeId of
        None \<Rightarrow> NODE_DEFAULT_HEIGHT
      | Some h \<Rightarrow> if h = 0 then NODE_DEFAULT_HEIGHT else h)"

text \<open>
  \<^verbatim>\<open>positionNode\<close> and its \<^verbatim>\<open>children.forEach\<close> loop. The map \<^verbatim>\<open>newLayout\<close>
  that the source mutates is passed through; the result is the map and the
  bottom of the subtree (for the loop: the map and \<^verbatim>\<open>currentChildTopY\<close>).
  The first argument bounds the depth of the recursion, which the source does
  not bound: \<open>None\<close> stands for a call stack that is exhausted.
\<close>

fun positionNode ::
    "nat \<Rightarrow> column list \<Rightarrow> (string \<rightharpoonup> real) \<Rightarrow> string \<Rightarrow> real \<Rightarrow> real \<Rightarrow> layout \<Rightarrow> (layout \<times> real) option"
  and positionChildren ::
    "nat \<Rightarrow> column list \<Rightarrow> (string \<rightharpoonup> real) \<Rightarrow> column list \<Rightarrow> real \<Rightarrow> real \<Rightarrow> layout \<Rightarrow> (layout \<times> real) option"
  where
  "positionNode 0 columns heights nodeId x startY newLayout = None"
| "positionNode (Suc depth) columns heights nodeId x startY newLayout =
     (let currentHeight = heightOf heights nodeId;
          nodeCenterY = startY + currentHeight / 2;
          placed = newLayout(nodeId \<mapsto> \<lparr>pos_x = x, pos_y = nodeCenterY, pos_height = currentHeight\<rparr>);
          children = getChildren columns (Some nodeId)
      in if length children = 0 then Some (placed, startY + currentHeight)
         else
           (case positionChildren depth columns heights children (x + NODE_WIDTH + NODE_GAP_X) startY placed of
              None \<Rightarrow> None
            | Some (laidOut, currentChildTopY) \<Rightarrow>
                (let lastChildBottom = currentChildTopY - NODE_GAP_Y;
                     myBottom = startY + currentHeight
                 in Some (laidOut, max myBottom lastChildBottom))))"
| "positionChildren depth columns heights [] x currentChildTopY newLayout =
     Some (newLayout, currentChildTopY)"
| "positionChildren depth columns heights (child # rest) x currentChildTopY newLayout =
     (case positionNode depth columns heights (col_id child) x currentChildTopY newLayout of
        None \<Rightarrow> None
      | Some (laidOut, childSubtreeBottom) \<Rightarrow>
          positionChildren depth columns heights rest x (childSubtreeBottom + NODE_GAP_Y) laidOut)"

text \<open>
  \<^verbatim>\<open>calculateLayout\<close>: the roots are placed at \<open>x = 0\<close> from \<open>y = 0\<close> by the same
  loop as the children of a node (\<^verbatim>\<open>currentRootTopY = rootBottom + NODE_GAP_Y\<close>).
\<close>

definition calculateLayout :: "nat \<Rightarrow> column list \<Rightarrow> (string \<rightharpoonup> real) \<Rightarrow> layout option" where
  "calculateLayout depth columns heights =
     map_option fst (positionChildren depth columns heights (getChildren columns None) 0 0 Map.empty)"

text \<open>
  The nodes layer: a column without a layout entry renders nothing
  (\<^verbatim>\<open>if (!pos) return null\<close>); the others are drawn at
  \<^verbatim>\<open>translate(finalX, finalY - pos.height / 2)\<close>.
\<close>

definition renderColumn :: "layout \<Rightarrow> (string \<rightharpoonup> vec) \<Rightarrow> column \<Rightarrow> vec option" where
  "renderColumn lay offsets col =
     (case lay (col_id col) of
        None \<Rightarrow> None
      | Some p \<Rightarrow>
          (let offset = (case offsets (col_id col) of Some v \<Rightarrow> v | None \<Rightarrow> \<lparr>vx = 0, vy = 0\<rparr>);
               finalX = pos_x p + vx offset;
               finalY = pos_y p + vy offset
           in Some \<lparr>vx = finalX, vy = finalY - pos_height p / 2\<rparr>))"

text \<open>
  \<^verbatim>\<open>handleNodeResize\<close>, the one writer of a height: the measured height of a
  column's box (\<^verbatim>\<open>entry.contentRect.height\<close> of its \<^verbatim>\<open>ResizeObserver\<close>) is
  stored unless it differs by less than 2 from the height stored
  (\<^verbatim>\<open>prev.get(id) || 0\<close>).
\<close>

definition handleNodeResize :: "string \<Rightarrow> real \<Rightarrow> (string \<rightharpoonup> real) \<Rightarrow> (string \<rightharpoonup> real)" where
  "handleNodeResize nodeId height prev =
     (if \<bar>(case prev nodeId of None \<Rightarrow> 0 | Some h \<Rightarrow> h) - height\<bar> < 2 then prev
      else prev(nodeId \<mapsto> height))"

section \<open>Application state (App.tsx)\<close>

datatype dragType = Canvas | Node

record dragState =
  drag_type :: dragType
  startX :: real
  startY :: real
  targetId :: "string option"
  initialPan :: "vec option"
  initialNodeOffset :: "vec option"

record appState =
  hasStarted :: bool
  columns :: "column list"
  selectedColumnId :: string
  globalInput :: string
  nodeHeights :: "string \<rightharpoonup> real"
  pan :: vec
  scale :: real
  dragRef :: "dragState option"
  nodeOffsets :: "string \<rightharpoonup> vec"

text \<open>
  What a handler leaves to \<^verbatim>\<open>setTimeout\<close>: after 100 ms the empty model
  placeholder is appended to the column and the response is streamed into it
  (\<open>StreamReply\<close>: column, placeholder, user text, the column snapshot passed
  to \<^verbatim>\<open>streamGeminiResponse\<close>); for a new branch the first user message is
  sent first (\<open>AutoSend\<close>: column, prompt, snapshot).
\<close>

datatype deferred =
  StreamReply string message string "column list"
| AutoSend string string "column list"

text \<open>
  \<^verbatim>\<open>handleGlobalSubmit\<close>. The two \<^verbatim>\<open>uuidv4()\<close> results and the two
  \<^verbatim>\<open>Date.now()\<close> readings are parameters. The three \<^verbatim>\<open>setColumns\<close> updaters
  run in the order they were queued.
\<close>

definition handleGlobalSubmit ::
  "string \<Rightarrow> int \<Rightarrow> string \<Rightarrow> int \<Rightarrow> appState \<Rightarrow> appState \<times> deferred list" where
  "handleGlobalSubmit userMsgId now1 modelMsgId now2 st =
     (if trim (globalInput st) = [] \<or> selectedColumnId st = [] then (st, [])
      else
        (case find (\<lambda>c. col_id c = selectedColumnId st) (columns st) of
           None \<Rightarrow> (st, [])
         | Some targetCol \<Rightarrow>
             if isThinking targetCol then (st, [])
             else
               (let text = globalInput st;
                    userMsg = \<lparr>msg_id = userMsgId, msg_role = User, msg_text = text,
                               msg_timestamp = now1\<rparr>;
                    cols1 = addMessageToColumn (selectedColumnId st) userMsg (columns st);
                    cols2 = setThinking (selectedColumnId st) True cols1;
                    cols3 = (if isCollapsed targetCol
                             then handleToggleCollapse (selectedColumnId st) cols2 else cols2);
                    modelMsg = \<lparr>msg_id = modelMsgId, msg_role = Model, msg_text = [],
                                msg_timestamp = now2\<rparr>
                in (st\<lparr>globalInput := [], columns := cols3\<rparr>,
                    [StreamReply (selectedColumnId st) modelMsg text (columns st)]))))"

text \<open>
  \<^verbatim>\<open>handleBranch\<close> of App.tsx: a new column is appended and selected, and the
  first message is left to a timer. There is no test of its arguments.
\<close>

definition handleBranch ::
  "string \<Rightarrow> string \<Rightarrow> string \<Rightarrow> string \<Rightarrow> string option \<Rightarrow> appState \<Rightarrow> appState \<times> deferred list" where
  "handleBranch newColId sourceColumnId sourceMessageId selectedText customPrompt st =
     (let newColumn =
            \<lparr>col_id = newColId,
             col_title = (if truthy customPrompt then the customPrompt
                          else take 20 selectedText @ ''...''),
             parentId = Some sourceColumnId,
             parentMessageId = Some sourceMessageId,
             contextSnippet = Some selectedText,
             messages = [],
             inputValue = [],
             isThinking = False,
             isCollapsed = False\<rparr>;
          initialPrompt =
            (if truthy customPrompt then the customPrompt
             else ''Tell me more about '' @ [CHR 0x22] @ selectedText @ [CHR 0x22]
                  @ '' in the context of our previous conversation.'')
      in (st\<lparr>columns := columns st @ [newColumn], selectedColumnId := newColId\<rparr>,
          [AutoSend newColId initialPrompt (columns st @ [newColumn])]))"

section \<open>Text selection in a message bubble (components/MessageBubble.tsx)\<close>

text \<open>
  What \<^verbatim>\<open>window.getSelection()\<close> gives: the number of ranges, the selected
  text, whether the anchor node lies inside this bubble's text, and the
  bounding rectangle of the first range.
\<close>

record windowSelection =
  rangeCount :: nat
  selectedString :: string
  anchorInBubble :: bool
  rect_left :: real
  rect_top :: real
  rect_width :: real

record selection =
  sel_x :: real
  sel_y :: real
  sel_text :: string

record bubbleState =
  bubble_selection :: "selection option"
  inputMode :: bool
  customQuery :: string

text \<open>A call of the \<^verbatim>\<open>onBranch\<close> property: selected text, message id, custom prompt.\<close>

datatype branchRequest = BranchRequest string string "string option"

definition handleMouseUp :: "windowSelection option \<Rightarrow> bubbleState \<Rightarrow> bubbleState" where
  "handleMouseUp windowSel bs =
     (case windowSel of
        None \<Rightarrow> bs
      | Some ws \<Rightarrow>
          if rangeCount ws = 0 then bs
          else
            (let text = trim (selectedString ws) in
             if length text > 0 \<and> anchorInBubble ws then
               bs\<lparr>bubble_selection :=
                     Some \<lparr>sel_x = rect_left ws + rect_width ws / 2, sel_y = rect_top ws,
                           sel_text = text\<rparr>,
                   inputMode := False, customQuery := []\<rparr>
             else bs))"

definition handleDeepDive :: "string \<Rightarrow> bubbleState \<Rightarrow> bubbleState \<times> branchRequest option" where
  "handleDeepDive messageId bs =
     (case bubble_selection bs of
        Some sel \<Rightarrow> (bs\<lparr>bubble_selection := None\<rparr>, Some (BranchRequest (sel_text sel) messageId None))
      | None \<Rightarrow> (bs, None))"

definition handleCustomAskSubmit :: "string \<Rightarrow> bubbleState \<Rightarrow> bubbleState \<times> branchRequest option" where
  "handleCustomAskSubmit messageId bs =
     (case bubble_selection bs of
        Some sel \<Rightarrow>
          if trim (customQuery bs) \<noteq> [] then
            (bs\<lparr>bubble_selection := None\<rparr>,
             Some (BranchRequest (sel_text sel) messageId (Some (customQuery bs))))
          else (bs, None)
      | None \<Rightarrow> (bs, None))"

text \<open>
  The wiring of ChatColumn.tsx: a bubble's request becomes
  \<^verbatim>\<open>handleBranch(column.id, msgId, text, customPrompt)\<close>; no request, no call.
\<close>

definition onBranch ::
  "string \<Rightarrow> string \<Rightarrow> branchRequest option \<Rightarrow> appState \<Rightarrow> appState \<times> deferred list" where
  "onBranch newColId columnId request st =
     (case request of
        None \<Rightarrow> (st, [])
      | Some (BranchRequest text msgId customPrompt) \<Rightarrow>
          handleBranch newColId columnId msgId text customPrompt st)"

section \<open>Viewport Controller (App.tsx)\<close>

record mouseEvent =
  clientX :: real
  clientY :: real

record wheelEvent =
  wheel_clientX :: real
  wheel_clientY :: real
  deltaY :: real

text \<open>
  The content container lies at the top left corner of \<^verbatim>\<open><main>\<close> and is drawn
  with \<^verbatim>\<open>translate(pan.x, pan.y) scale(scale)\<close> from its top left corner: the
  world point \<open>w\<close> is shown at \<open>w * scale + pan\<close>, measured from the top left
  corner of \<^verbatim>\<open><main>\<close>.
\<close>

definition toScreen :: "appState \<Rightarrow> vec \<Rightarrow> vec" where
  "toScreen st w = \<lparr>vx = vx w * scale st + vx (pan st), vy = vy w * scale st + vy (pan st)\<rparr>"

text \<open>
  \<^verbatim>\<open>clientX\<close> and \<^verbatim>\<open>clientY\<close> of an event are measured from the top left corner
  of the window. \<^verbatim>\<open><main>\<close> follows the header in the column layout, and the
  header is in the flow with the height \<^verbatim>\<open>h-14\<close> (56 px): \<open>mainOrigin\<close> is the
  top left corner of \<^verbatim>\<open><main>\<close> in the client frame. \<open>toClient\<close> is where a
  world point is shown in the client frame for a given origin of \<^verbatim>\<open><main>\<close>.
\<close>

definition mainOrigin :: vec where
  "mainOrigin = \<lparr>vx = 0, vy = 56\<rparr>"

definition toClient :: "vec \<Rightarrow> appState \<Rightarrow> vec \<Rightarrow> vec" where
  "toClient origin st w =
     \<lparr>vx = vx origin + vx (toScreen st w), vy = vy origin + vy (toScreen st w)\<rparr>"

text \<open>
  From a client position to the world point shown there, as \<^verbatim>\<open>calculateLines\<close>
  converts: \<^verbatim>\<open>(visualTop - contentRect.top) / scale\<close>, where \<^verbatim>\<open>contentRect\<close> is
  the bounding client rectangle of the content container, whose corner is the
  origin of \<^verbatim>\<open><main>\<close> moved by the pan.
\<close>

definition contentRect :: "vec \<Rightarrow> appState \<Rightarrow> vec" where
  "contentRect origin st = \<lparr>vx = vx origin + vx (pan st), vy = vy origin + vy (pan st)\<rparr>"

definition clientToWorld :: "vec \<Rightarrow> appState \<Rightarrow> vec \<Rightarrow> vec" where
  "clientToWorld origin st c =
     \<lparr>vx = (vx c - vx (contentRect origin st)) / scale st,
      vy = (vy c - vy (contentRect origin st)) / scale st\<rparr>"

text \<open>
  The world point shown at the top left corner of the viewport, as the minimap
  computes it (\<^verbatim>\<open>vpWorldX = -pan.x / scale\<close>).
\<close>

definition vpWorld :: "appState \<Rightarrow> vec" where
  "vpWorld st = \<lparr>vx = - vx (pan st) / scale st, vy = - vy (pan st) / scale st\<rparr>"

definition handleWheel :: "wheelEvent \<Rightarrow> appState \<Rightarrow> appState" where
  "handleWheel e st =
     (if \<not> hasStarted st then st
      else
        (let zoomSensitivity = 0.001;
             newScale = min (max 0.1 (scale st - deltaY e * zoomSensitivity)) 3;
             mouseX = wheel_clientX e;
             mouseY = wheel_clientY e;
             worldX = (mouseX - vx (pan st)) / scale st;
             worldY = (mouseY - vy (pan st)) / scale st;
             newPanX = mouseX - worldX * newScale;
             newPanY = mouseY - worldY * newScale
         in st\<lparr>scale := newScale, pan := \<lparr>vx = newPanX, vy = newPanY\<rparr>\<rparr>))"

text \<open>The two header buttons: \<^verbatim>\<open>setScale(s => Math.max(0.1, s - 0.1))\<close> and
  \<^verbatim>\<open>setScale(s => Math.min(3, s + 0.1))\<close>.\<close>

definition zoomOutButton :: "appState \<Rightarrow> appState" where
  "zoomOutButton st = st\<lparr>scale := max 0.1 (scale st - 0.1)\<rparr>"

definition zoomInButton :: "appState \<Rightarrow> appState" where
  "zoomInButton st = st\<lparr>scale := min 3 (scale st + 0.1)\<rparr>"

text \<open>
  \<^verbatim>\<open>handleMouseDown\<close> on the canvas (\<open>onColumn\<close>: the target lies inside a
  \<^verbatim>\<open>.chat-column-container\<close>), and \<^verbatim>\<open>handleNodeDragStart\<close> on a node's header.
\<close>

definition handleMouseDown :: "nat \<Rightarrow> bool \<Rightarrow> mouseEvent \<Rightarrow> appState \<Rightarrow> appState" where
  "handleMouseDown button onColumn e st =
     (if button = 0 \<or> button = 1 then
        (if onColumn then st
         else st\<lparr>dragRef := Some \<lparr>drag_type = Canvas, startX = clientX e, startY = clientY e,
                                    targetId = None, initialPan = Some (pan st),
                                    initialNodeOffset = None\<rparr>\<rparr>)
      else st)"

definition handleNodeDragStart :: "mouseEvent \<Rightarrow> string \<Rightarrow> appState \<Rightarrow> appState" where
  "handleNodeDragStart e columnId st =
     (let currentOffset = (case nodeOffsets st columnId of Some v \<Rightarrow> v | None \<Rightarrow> \<lparr>vx = 0, vy = 0\<rparr>)
      in st\<lparr>dragRef := Some \<lparr>drag_type = Node, startX = clientX e, startY = clientY e,
                                 targetId = Some columnId, initialPan = None,
                                 initialNodeOffset = Some currentOffset\<rparr>\<rparr>)"

text \<open>
  The window's \<^verbatim>\<open>mousemove\<close> and \<^verbatim>\<open>mouseup\<close> listeners. The listener is
  registered again whenever \<^verbatim>\<open>scale\<close> changes, so it divides by the current
  scale; the \<^verbatim>\<open>setNodeOffsets\<close> updater is taken to run before the next event.
\<close>

definition handleMouseMove :: "mouseEvent \<Rightarrow> appState \<Rightarrow> appState" where
  "handleMouseMove e st =
     (case dragRef st of
        None \<Rightarrow> st
      | Some d \<Rightarrow>
          (let dx = clientX e - startX d;
               dy = clientY e - startY d
           in if drag_type d = Canvas \<and> initialPan d \<noteq> None then
                st\<lparr>pan := \<lparr>vx = vx (the (initialPan d)) + dx, vy = vy (the (initialPan d)) + dy\<rparr>\<rparr>
              else if drag_type d = Node \<and> truthy (targetId d) \<and> initialNodeOffset d \<noteq> None then
                (let worldDx = dx / scale st;
                     worldDy = dy / scale st;
                     newOffset = \<lparr>vx = vx (the (initialNodeOffset d)) + worldDx,
                                  vy = vy (the (initialNodeOffset d)) + worldDy\<rparr>
                 in st\<lparr>nodeOffsets := (nodeOffsets st)(the (targetId d) \<mapsto> newOffset)\<rparr>)
              else st))"

definition handleMouseUp_window :: "appState \<Rightarrow> appState" where
  "handleMouseUp_window st = st\<lparr>dragRef := None\<rparr>"

section \<open>Closing a column (App.tsx)\<close>

text \<open>
  What a handler can throw: \<open>RangeError\<close> when the recursion of
  \<^verbatim>\<open>getDescendants\<close> exhausts the call stack (nothing has been updated yet), and
  \<open>TypeError\<close> when \<^verbatim>\<open>columns[0]\<close> is read from an empty list; the three
  updaters queued before that throw still apply, and the error carries the
  state they give.
\<close>

datatype error = RangeError | TypeError appState

definition handleCloseColumn :: "nat \<Rightarrow> string \<Rightarrow> appState \<Rightarrow> error + appState" where
  "handleCloseColumn depth columnId st =
     (case getDescendants depth (columns st) columnId of
        None \<Rightarrow> Inl RangeError
      | Some ds \<Rightarrow>
          (let toDelete = set ds;
               st1 = st\<lparr>columns := filter (\<lambda>c. col_id c \<notin> toDelete) (columns st),
                        nodeHeights := nodeHeights st |` (- toDelete),
                        nodeOffsets := nodeOffsets st |` (- toDelete)\<rparr>
           in if selectedColumnId st \<in> toDelete then
                (case find (\<lambda>c. col_id c = columnId) (columns st) of
                   Some col \<Rightarrow>
                     if truthy (parentId col) then Inr (st1\<lparr>selectedColumnId := the (parentId col)\<rparr>)
                     else (case columns st of
                             [] \<Rightarrow> Inl (TypeError st1)
                           | first # _ \<Rightarrow> Inr (st1\<lparr>selectedColumnId := col_id first\<rparr>))
                 | None \<Rightarrow>
                     (case columns st of
                        [] \<Rightarrow> Inl (TypeError st1)
                      | first # _ \<Rightarrow> Inr (st1\<lparr>selectedColumnId := col_id first\<rparr>)))
              else Inr st1))"

text \<open>
  The close button of a column: \<^verbatim>\<open>onClose={col.parentId ? handleCloseColumn : undefined}\<close>.
  A column without a parent offers none.
\<close>

definition onClose :: "nat \<Rightarrow> column \<Rightarrow> (appState \<Rightarrow> error + appState) option" where
  "onClose depth col =
     (if truthy (parentId col) then Some (handleCloseColumn depth (col_id col)) else None)"

section \<open>The tree that the parent links describe\<close>

text \<open>
  The parent relation of a column list, on ids: \<open>(p, k)\<close> when a column with the
  id \<open>k\<close> has the parent id \<open>p\<close>. The descendants of an id are what the relation
  reaches from it, the id included; two ids are related when one is a
  descendant of the other.
\<close>

definition parentRel :: "column list \<Rightarrow> (string \<times> string) set" where
  "parentRel cols = {(p, k). \<exists>c \<in> set cols. parentId c = Some p \<and> col_id c = k}"

definition descendants :: "column list \<Rightarrow> string \<Rightarrow> string set" where
  "descendants cols k = (parentRel cols)\<^sup>* `` {k}"

definition related :: "column list \<Rightarrow> string \<Rightarrow> string \<Rightarrow> bool" where
  "related cols a b = (b \<in> descendants cols a \<or> a \<in> descendants cols b)"

text \<open>The ids that the parent links reach from a root.\<close>

definition rootReach :: "column list \<Rightarrow> string set" where
  "rootReach cols = (\<Union>r \<in> set (getChildren cols None). descendants cols (col_id r))"

text \<open>
  The vertical extent of a layout entry, as the nodes layer and the minimap draw
  it: from \<open>y - height / 2\<close> to \<open>y + height / 2\<close>. Two entries overlap vertically
  when these closed intervals meet.
\<close>

definition rectTop :: "pos \<Rightarrow> real" where
  "rectTop e = pos_y e - pos_height e / 2"

definition rectBottom :: "pos \<Rightarrow> real" where
  "rectBottom e = pos_y e + pos_height e / 2"

definition overlapsVertically :: "pos \<Rightarrow> pos \<Rightarrow> bool" where
  "overlapsVertically e1 e2 = (rectTop e1 \<le> rectBottom e2 \<and> rectTop e2 \<le> rectBottom e1)"

text \<open>
  Within a set of ids, every id has an entry between \<open>lo\<close> and \<open>hi\<close>, and the
  entries of two ids that are not related lie one below the other, at least
  the vertical gap apart.
\<close>

definition placedWithin :: "column list \<Rightarrow> layout \<Rightarrow> string set \<Rightarrow> real \<Rightarrow> real \<Rightarrow> bool" where
  "placedWithin cols lay S lo hi =
     ((\<forall>j \<in> S. \<exists>e. lay j = Some e \<and> lo \<le> rectTop e \<and> rectBottom e \<le> hi)
      \<and> (\<forall>a \<in> S. \<forall>b \<in> S. \<not> related cols a b \<longrightarrow>
            rectBottom (the (lay a)) + NODE_GAP_Y \<le> rectTop (the (lay b))
            \<or> rectBottom (the (lay b)) + NODE_GAP_Y \<le> rectTop (the (lay a))))"

section \<open>Specification of the linearized context\<close>

text \<open>
  The prefix of a message list that ends at, and includes, the first message
  with the id given.
\<close>

fun prefixThrough :: "string \<Rightarrow> message list \<Rightarrow> message list" where
  "prefixThrough mid [] = []"
| "prefixThrough mid (m # ms) = (if msg_id m = mid then [m] else m # prefixThrough mid ms)"

text \<open>
  The synthetic message of a branch, as the specification words it: a message
  of the user role that says the conversation branches off to discuss the fork
  span, which it quotes.
\<close>

definition branchNote :: "string \<Rightarrow> role \<times> string" where
  "branchNote forkSpan =
     (User,
      ''I want to branch off and discuss specifically about: '' @ [CHR 0x22] @ forkSpan @ [CHR 0x22])"

text \<open>
  The context of a root-to-target path as the specification words it, each
  message given by its role and its text: each ancestor gives its prefix
  through the message the next node forked at, then the synthetic message when
  the next node has a fork span; the target gives all of its messages.
\<close>

fun linearized :: "column list \<Rightarrow> (role \<times> string) list" where
  "linearized [] = []"
| "linearized [target] = map (\<lambda>m. (msg_role m, msg_text m)) (messages target)"
| "linearized (ancestor # next # rest) =
     map (\<lambda>m. (msg_role m, msg_text m))
       (prefixThrough (the (parentMessageId next)) (messages ancestor))
     @ (case contextSnippet next of
          None \<Rightarrow> []
        | Some forkSpan \<Rightarrow> [branchNote forkSpan])
     @ linearized (next # rest)"

text \<open>
  A path resolves in a column list: every column of it is the column that the
  list holds for its (non-empty) id, each column's \<^verbatim>\<open>parentId\<close> names the column
  before it, and its \<^verbatim>\<open>parentMessageId\<close> names a message of that column.
\<close>

definition resolvesTo :: "column list \<Rightarrow> column \<Rightarrow> bool" where
  "resolvesTo cols c = (col_id c \<noteq> [] \<and> find (\<lambda>x. Some (col_id x) = Some (col_id c)) cols = Some c)"

fun pathResolves :: "column list \<Rightarrow> column list \<Rightarrow> bool" where
  "pathResolves cols [] = True"
| "pathResolves cols [c] = resolvesTo cols c"
| "pathResolves cols (a # b # rest) =
     (resolvesTo cols a \<and> parentId b = Some (col_id a)
      \<and> (\<exists>m \<in> set (messages a). parentMessageId b = Some (msg_id m))
      \<and> pathResolves cols (b # rest))"

section \<open>Example states\<close>

definition exampleRoot :: column where
  "exampleRoot =
     \<lparr>col_id = ''root'', col_title = ''Root'', parentId = None, parentMessageId = None,
      contextSnippet = None, messages = [], inputValue = [], isThinking = False,
      isCollapsed = False\<rparr>"

definition exampleState :: appState where
  "exampleState =
     \<lparr>hasStarted = True, columns = [exampleRoot], selectedColumnId = ''root'',
      globalInput = ''hello'', nodeHeights = Map.empty, pan = \<lparr>vx = 100, vy = 0\<rparr>, scale = 1,
      dragRef = None, nodeOffsets = Map.empty\<rparr>"

definition u1 :: message where "u1 = \<lparr>msg_id = ''u1'', msg_role = User, msg_text = ''question 1'', msg_timestamp = 1\<rparr>"
definition a1 :: message where "a1 = \<lparr>msg_id = ''a1'', msg_role = Model, msg_text = ''answer 1 about X'', msg_timestamp = 2\<rparr>"
definition u2 :: message where "u2 = \<lparr>msg_id = ''u2'', msg_role = User, msg_text = ''question 2'', msg_timestamp = 3\<rparr>"
definition a2 :: message where "a2 = \<lparr>msg_id = ''a2'', msg_role = Model, msg_text = ''answer 2'', msg_timestamp = 4\<rparr>"
definition u3 :: message where "u3 = \<lparr>msg_id = ''u3'', msg_role = User, msg_text = ''question 3'', msg_timestamp = 5\<rparr>"
definition a3 :: message where "a3 = \<lparr>msg_id = ''a3'', msg_role = Model, msg_text = ''answer 3'', msg_timestamp = 6\<rparr>"

definition exampleTrunk :: column where
  "exampleTrunk = exampleRoot\<lparr>messages := [u1, a1, u2, a2]\<rparr>"

definition exampleBranch :: column where
  "exampleBranch =
     \<lparr>col_id = ''B'', col_title = ''X...'', parentId = Some ''root'', parentMessageId = Some ''a1'',
      contextSnippet = Some ''X'', messages = [u3, a3], inputValue = [], isThinking = False,
      isCollapsed = False\<rparr>"

definition exampleOrphan :: column where
  "exampleOrphan =
     \<lparr>col_id = ''orphan'', col_title = ''lost...'', parentId = Some ''ghost'',
      parentMessageId = Some ''a9'', contextSnippet = Some ''lost'', messages = [],
      inputValue = [], isThinking = False, isCollapsed = False\<rparr>"

definition exampleChild :: "string \<Rightarrow> string \<Rightarrow> column" where
  "exampleChild k p =
     \<lparr>col_id = k, col_title = ''X...'', parentId = Some p, parentMessageId = Some ''a1'',
      contextSnippet = Some ''X'', messages = [], inputValue = [], isThinking = False,
      isCollapsed = False\<rparr>"

definition exampleForest :: "column list" where
  "exampleForest =
     [exampleTrunk, exampleChild ''A'' ''root'', exampleChild ''A1'' ''A'',
      exampleChild ''C'' ''root'']"

definition exampleHeights :: "string \<rightharpoonup> real" where
  "exampleHeights = [''A'' \<mapsto> 100, ''A1'' \<mapsto> 300, ''C'' \<mapsto> 150]"

definition exampleSecondRoot :: column where
  "exampleSecondRoot = exampleRoot\<lparr>col_id := ''root2''\<rparr>"

definition exampleTwoRoots :: appState where
  "exampleTwoRoots =
     exampleState\<lparr>columns := [exampleTrunk, exampleSecondRoot, exampleChild ''A'' ''root''],
                  selectedColumnId := ''A''\<rparr>"

definition exampleLoop :: column where
  "exampleLoop = exampleChild ''loop'' ''loop''"

definition exampleClosable :: appState where
  "exampleClosable =
     exampleState\<lparr>columns := exampleForest, selectedColumnId := ''A1'',
                  nodeHeights := exampleHeights,
                  nodeOffsets := [''A1'' \<mapsto> \<lparr>vx = 5, vy = 5\<rparr>]\<rparr>"

section \<open>Streamed chunks for a column that is gone\<close>

text \<open>
  C8. A chunk for a column id that is not in the list leaves the whole list as
  it was: the chunk is dropped, and no other column receives it.
\<close>

theorem updateLastMessage_absent_column:
  assumes "columnId \<notin> col_id ` set cols"
  shows "updateLastMessage columnId textChunk cols = cols"
proof -
  have "\<forall>col \<in> set cols. col_id col \<noteq> columnId"
    using assms by auto
  then show ?thesis
    unfolding updateLastMessage_def by (simp add: map_idI)
qed

theorem updateLastMessage_absent_column_witness:
  "''gone'' \<notin> col_id ` set [exampleRoot]
   \<and> updateLastMessage ''gone'' ''late chunk'' [exampleRoot] = [exampleRoot]"
  using updateLastMessage_absent_column [of "''gone''" "[exampleRoot]" "''late chunk''"]
  by (simp add: exampleRoot_def)

section \<open>At most one response in flight\<close>

text \<open>
  C6. When the selected column (the first column of the list that carries the
  selected id) has \<^verbatim>\<open>isThinking\<close> set, a submit changes nothing: the state
  is returned as it was (no user message, no placeholder, the same column
  list, the input kept) and nothing is left to a timer.
\<close>

theorem handleGlobalSubmit_pending_noop:
  assumes "find (\<lambda>c. col_id c = selectedColumnId st) (columns st) = Some targetCol"
    and "isThinking targetCol"
  shows "handleGlobalSubmit userMsgId now1 modelMsgId now2 st = (st, [])"
  using assms by (simp add: handleGlobalSubmit_def)

theorem handleGlobalSubmit_pending_noop_witness:
  "find (\<lambda>c. col_id c = selectedColumnId (exampleState\<lparr>columns := [exampleRoot\<lparr>isThinking := True\<rparr>]\<rparr>))
        (columns (exampleState\<lparr>columns := [exampleRoot\<lparr>isThinking := True\<rparr>]\<rparr>))
     = Some (exampleRoot\<lparr>isThinking := True\<rparr>)
   \<and> isThinking (exampleRoot\<lparr>isThinking := True\<rparr>)
   \<and> handleGlobalSubmit ''u1'' 1 ''m1'' 2 (exampleState\<lparr>columns := [exampleRoot\<lparr>isThinking := True\<rparr>]\<rparr>)
       = (exampleState\<lparr>columns := [exampleRoot\<lparr>isThinking := True\<rparr>]\<rparr>, [])"
  using handleGlobalSubmit_pending_noop
    [of "exampleState\<lparr>columns := [exampleRoot\<lparr>isThinking := True\<rparr>]\<rparr>"
        "exampleRoot\<lparr>isThinking := True\<rparr>" "''u1''" 1 "''m1''" 2]
  by (simp add: exampleState_def exampleRoot_def)

section \<open>Zoom anchored at the pointer\<close>

text \<open>
  What the wheel handler computes, in the canvas view and for a scale within
  \<open>[0.1, 3]\<close>: the scale becomes \<open>scale - deltaY * 0.001\<close> clamped to \<open>[0.1, 3]\<close> and
  the pan becomes \<open>pointer - worldPos * newScale\<close>, where \<open>pointer\<close> is the client
  position of the event and \<open>worldPos = (pointer - pan) / scale\<close>.
\<close>

lemma handleWheel_sets:
  assumes "hasStarted st"
  shows "scale (handleWheel e st) = min (max 0.1 (scale st - deltaY e * 0.001)) 3"
    and "pan (handleWheel e st) =
      \<lparr>vx = wheel_clientX e - (wheel_clientX e - vx (pan st)) / scale st
                * min (max 0.1 (scale st - deltaY e * 0.001)) 3,
       vy = wheel_clientY e - (wheel_clientY e - vy (pan st)) / scale st
                * min (max 0.1 (scale st - deltaY e * 0.001)) 3\<rparr>"
    and "0.1 \<le> scale (handleWheel e st)" and "scale (handleWheel e st) \<le> 3"
proof -
  show sc: "scale (handleWheel e st) = min (max 0.1 (scale st - deltaY e * 0.001)) 3"
    using assms by (simp add: handleWheel_def Let_def)
  show "pan (handleWheel e st) =
      \<lparr>vx = wheel_clientX e - (wheel_clientX e - vx (pan st)) / scale st
                * min (max 0.1 (scale st - deltaY e * 0.001)) 3,
       vy = wheel_clientY e - (wheel_clientY e - vy (pan st)) / scale st
                * min (max 0.1 (scale st - deltaY e * 0.001)) 3\<rparr>"
    using assms by (simp add: handleWheel_def Let_def)
  show "0.1 \<le> scale (handleWheel e st)" "scale (handleWheel e st) \<le> 3"
    unfolding sc by (simp_all add: min_def max_def)
qed

text \<open>
  Where the world point under the pointer goes. The handler takes the client
  position of the pointer as if it were measured from the corner of \<^verbatim>\<open><main>\<close>:
  the world point that is shown under the pointer before the zoom is shown,
  after it, at the pointer moved by \<open>origin * (1 - newScale / scale)\<close>. It stays
  under the pointer when \<^verbatim>\<open><main>\<close> starts at the corner of the window.
\<close>

lemma handleWheel_drift:
  assumes "hasStarted st" and "0.1 \<le> scale st" and "scale st \<le> 3"
  shows "toClient origin st
           (clientToWorld origin st \<lparr>vx = wheel_clientX e, vy = wheel_clientY e\<rparr>)
         = \<lparr>vx = wheel_clientX e, vy = wheel_clientY e\<rparr>"
    and "toClient origin (handleWheel e st)
           (clientToWorld origin st \<lparr>vx = wheel_clientX e, vy = wheel_clientY e\<rparr>)
         = \<lparr>vx = wheel_clientX e + vx origin * (1 - scale (handleWheel e st) / scale st),
            vy = wheel_clientY e + vy origin * (1 - scale (handleWheel e st) / scale st)\<rparr>"
proof -
  have nz: "scale st \<noteq> 0" using assms(2) by auto
  show "toClient origin st
           (clientToWorld origin st \<lparr>vx = wheel_clientX e, vy = wheel_clientY e\<rparr>)
         = \<lparr>vx = wheel_clientX e, vy = wheel_clientY e\<rparr>"
    using nz by (simp add: toClient_def toScreen_def clientToWorld_def contentRect_def)
  define s' where "s' = scale (handleWheel e st)"
  have sc: "scale (handleWheel e st) = s'"
    by (simp add: s'_def)
  have pn: "pan (handleWheel e st) =
      \<lparr>vx = wheel_clientX e - (wheel_clientX e - vx (pan st)) / scale st * s',
       vy = wheel_clientY e - (wheel_clientY e - vy (pan st)) / scale st * s'\<rparr>"
    unfolding s'_def handleWheel_sets(1) [OF assms(1)] by (rule handleWheel_sets(2) [OF assms(1)])
  have x: "vx origin + ((wheel_clientX e - (vx origin + vx (pan st))) / scale st * s'
             + (wheel_clientX e - (wheel_clientX e - vx (pan st)) / scale st * s'))
           = wheel_clientX e + vx origin * (1 - s' / scale st)"
    using nz by (simp add: field_simps)
  have y: "vy origin + ((wheel_clientY e - (vy origin + vy (pan st))) / scale st * s'
             + (wheel_clientY e - (wheel_clientY e - vy (pan st)) / scale st * s'))
           = wheel_clientY e + vy origin * (1 - s' / scale st)"
    using nz by (simp add: field_simps)
  show "toClient origin (handleWheel e st)
           (clientToWorld origin st \<lparr>vx = wheel_clientX e, vy = wheel_clientY e\<rparr>)
         = \<lparr>vx = wheel_clientX e + vx origin * (1 - scale (handleWheel e st) / scale st),
            vy = wheel_clientY e + vy origin * (1 - scale (handleWheel e st) / scale st)\<rparr>"
    unfolding toClient_def toScreen_def clientToWorld_def contentRect_def sc pn
    using x y by simp
qed

text \<open>
  C3. The claim says that the world point under the pointer is shown at the
  same place after the zoom. In the canvas view with the pan \<open>(100, 0)\<close> and the
  scale \<open>1\<close>, a wheel event at the client position \<open>(400, 300)\<close> with
  \<open>deltaY = 500\<close> sets the scale to \<open>0.5\<close> and the pan to \<open>(250, 150)\<close>, as the
  formulas of the claim say. The world point under the pointer is \<open>(300, 244)\<close>,
  since \<^verbatim>\<open><main>\<close> starts 56 px below the top of the window; after the zoom it is
  shown at \<open>(400, 328)\<close>, 28 px below the pointer.
\<close>

theorem handleWheel_anchor_drift:
  "hasStarted exampleState
   \<and> pan exampleState = \<lparr>vx = 100, vy = 0\<rparr> \<and> scale exampleState = 1
   \<and> clientToWorld mainOrigin exampleState \<lparr>vx = 400, vy = 300\<rparr> = \<lparr>vx = 300, vy = 244\<rparr>
   \<and> toClient mainOrigin exampleState \<lparr>vx = 300, vy = 244\<rparr> = \<lparr>vx = 400, vy = 300\<rparr>
   \<and> scale (handleWheel \<lparr>wheel_clientX = 400, wheel_clientY = 300, deltaY = 500\<rparr> exampleState)
       = 0.5
   \<and> pan (handleWheel \<lparr>wheel_clientX = 400, wheel_clientY = 300, deltaY = 500\<rparr> exampleState)
       = \<lparr>vx = 250, vy = 150\<rparr>
   \<and> toClient mainOrigin
         (handleWheel \<lparr>wheel_clientX = 400, wheel_clientY = 300, deltaY = 500\<rparr> exampleState)
         \<lparr>vx = 300, vy = 244\<rparr> = \<lparr>vx = 400, vy = 328\<rparr>"
  by (simp add: handleWheel_def toClient_def toScreen_def clientToWorld_def contentRect_def
      mainOrigin_def exampleState_def Let_def)

section \<open>Zoom by the header buttons\<close>

text \<open>
  C10 (as amended). For a scale within \<open>[0.1, 3]\<close> the two header buttons change
  the scale by \<open>-0.1\<close> and \<open>+0.1\<close>, clamped to \<open>[0.1, 3]\<close>, and leave the pan and
  every manual offset as they were. The fixed point of this zoom is the world
  origin, which stays at the screen position \<open>pan\<close>: a world point keeps its
  screen position exactly when the scale did not change or the point is the
  world origin.
\<close>

theorem zoomButtons_frame:
  assumes "0.1 \<le> scale st" and "scale st \<le> 3"
  shows "scale (zoomOutButton st) = min (max 0.1 (scale st - 0.1)) 3
       \<and> scale (zoomInButton st) = min (max 0.1 (scale st + 0.1)) 3
       \<and> pan (zoomOutButton st) = pan st \<and> pan (zoomInButton st) = pan st
       \<and> nodeOffsets (zoomOutButton st) = nodeOffsets st
       \<and> nodeOffsets (zoomInButton st) = nodeOffsets st
       \<and> toScreen (zoomOutButton st) \<lparr>vx = 0, vy = 0\<rparr> = toScreen st \<lparr>vx = 0, vy = 0\<rparr>
       \<and> toScreen (zoomInButton st) \<lparr>vx = 0, vy = 0\<rparr> = toScreen st \<lparr>vx = 0, vy = 0\<rparr>
       \<and> (toScreen (zoomOutButton st) w = toScreen st w
            \<longleftrightarrow> scale (zoomOutButton st) = scale st \<or> w = \<lparr>vx = 0, vy = 0\<rparr>)
       \<and> (toScreen (zoomInButton st) w = toScreen st w
            \<longleftrightarrow> scale (zoomInButton st) = scale st \<or> w = \<lparr>vx = 0, vy = 0\<rparr>)"
  using assms
  by (auto simp add: zoomOutButton_def zoomInButton_def toScreen_def min_def max_def)

theorem zoomButtons_frame_witness:
  "0.1 \<le> scale exampleState \<and> scale exampleState \<le> 3
   \<and> scale (zoomOutButton exampleState) = 0.9 \<and> scale (zoomInButton exampleState) = 1.1
   \<and> pan (zoomInButton exampleState) = \<lparr>vx = 100, vy = 0\<rparr>
   \<and> toScreen (zoomInButton exampleState) \<lparr>vx = 0, vy = 0\<rparr> = toScreen exampleState \<lparr>vx = 0, vy = 0\<rparr>"
  using zoomButtons_frame [of exampleState]
  by (simp add: exampleState_def zoomOutButton_def zoomInButton_def toScreen_def)

text \<open>
  The world point shown at the screen origin is not a fixed point: with the pan
  \<open>(100, 0)\<close> and the scale \<open>1\<close> it is \<open>(-100, 0)\<close>, and after the zoom-in button
  it is shown at \<open>(-10, 0)\<close>.
\<close>

theorem zoomButton_screen_origin_counterexample:
  "toScreen exampleState (vpWorld exampleState) = \<lparr>vx = 0, vy = 0\<rparr>
   \<and> toScreen (zoomInButton exampleState) (vpWorld exampleState) = \<lparr>vx = -10, vy = 0\<rparr>
   \<and> toScreen (zoomInButton exampleState) (vpWorld exampleState)
       \<noteq> toScreen exampleState (vpWorld exampleState)"
  by (simp add: exampleState_def zoomInButton_def toScreen_def vpWorld_def)

section \<open>Node drag\<close>

lemma handleMouseMove_node:
  assumes "dragRef st = Some d" and "drag_type d = Node" and "targetId d = Some cid"
    and "cid \<noteq> []" and "initialNodeOffset d = Some off"
  shows "handleMouseMove e st =
           st\<lparr>nodeOffsets := (nodeOffsets st)(cid \<mapsto>
                 \<lparr>vx = vx off + (clientX e - startX d) / scale st,
                  vy = vy off + (clientY e - startY d) / scale st\<rparr>)\<rparr>"
  using assms by (simp add: handleMouseMove_def truthy_def Let_def)

lemma fold_handleMouseMove_node:
  assumes "dragRef st = Some d" and "drag_type d = Node" and "targetId d = Some cid"
    and "cid \<noteq> []" and "initialNodeOffset d = Some off"
  shows "dragRef (fold handleMouseMove es st) = Some d
       \<and> scale (fold handleMouseMove es st) = scale st
       \<and> pan (fold handleMouseMove es st) = pan st
       \<and> (\<forall>k. k \<noteq> cid \<longrightarrow> nodeOffsets (fold handleMouseMove es st) k = nodeOffsets st k)"
  using assms
proof (induction es arbitrary: st)
  case Nil
  then show ?case by simp
next
  case (Cons e es)
  let ?st1 = "handleMouseMove e st"
  have eq: "?st1 = st\<lparr>nodeOffsets := (nodeOffsets st)(cid \<mapsto>
                 \<lparr>vx = vx off + (clientX e - startX d) / scale st,
                  vy = vy off + (clientY e - startY d) / scale st\<rparr>)\<rparr>"
    using Cons.prems by (rule handleMouseMove_node)
  have "dragRef ?st1 = Some d" using Cons.prems(1) by (simp add: eq)
  from Cons.IH [OF this Cons.prems(2-5)]
  show ?case by (simp add: eq)
qed

text \<open>
  C4. A node-drag gesture starts with \<^verbatim>\<open>handleNodeDragStart\<close> at the pointer
  position \<open>e0\<close> and is followed by any number of move events, the last of them
  at \<open>e\<close>. At the scale \<open>s\<close>, with the node's manual offset \<open>off\<close> at drag start
  (\<open>(0, 0)\<close> when none is stored), the node's offset after the moves is
  \<open>off + (e - e0) / s\<close>: it is computed from the offset recorded at drag start,
  whatever the intermediate moves \<open>es\<close> were, and it is the same for every pan
  \<open>p\<close>. The gesture changes no other offset, nor the pan, nor the scale. The
  column id is a non-empty string (the handler tests \<^verbatim>\<open>targetId\<close> for
  truthiness) and the scale is positive.
\<close>

theorem nodeDrag_offset:
  assumes "columnId \<noteq> []" and "0 < scale st"
  shows "(let off = (case nodeOffsets st columnId of Some v \<Rightarrow> v | None \<Rightarrow> \<lparr>vx = 0, vy = 0\<rparr>);
              st' = fold handleMouseMove (es @ [e]) (handleNodeDragStart e0 columnId (st\<lparr>pan := p\<rparr>))
          in nodeOffsets st' columnId =
               Some \<lparr>vx = vx off + (clientX e - clientX e0) / scale st,
                     vy = vy off + (clientY e - clientY e0) / scale st\<rparr>
             \<and> (\<forall>k. k \<noteq> columnId \<longrightarrow> nodeOffsets st' k = nodeOffsets st k)
             \<and> pan st' = p \<and> scale st' = scale st)"
proof -
  define off where "off = (case nodeOffsets st columnId of Some v \<Rightarrow> v | None \<Rightarrow> \<lparr>vx = 0, vy = 0\<rparr>)"
  define d where "d = \<lparr>drag_type = Node, startX = clientX e0, startY = clientY e0,
      targetId = Some columnId, initialPan = None, initialNodeOffset = Some off\<rparr>"
  define st1 where "st1 = handleNodeDragStart e0 columnId (st\<lparr>pan := p\<rparr>)"
  define st2 where "st2 = fold handleMouseMove es st1"
  have st1: "st1 = st\<lparr>pan := p, dragRef := Some d\<rparr>"
    by (simp add: st1_def handleNodeDragStart_def d_def off_def)
  have d: "dragRef st1 = Some d" "drag_type d = Node" "targetId d = Some columnId"
    "initialNodeOffset d = Some off" "startX d = clientX e0" "startY d = clientY e0"
    by (simp_all add: st1 d_def)
  have inv: "dragRef st2 = Some d" "scale st2 = scale st1" "pan st2 = pan st1"
    "\<forall>k. k \<noteq> columnId \<longrightarrow> nodeOffsets st2 k = nodeOffsets st1 k"
    using fold_handleMouseMove_node [OF d(1) d(2) d(3) assms(1) d(4), of es]
    by (simp_all add: st2_def)
  have last: "handleMouseMove e st2 =
           st2\<lparr>nodeOffsets := (nodeOffsets st2)(columnId \<mapsto>
                 \<lparr>vx = vx off + (clientX e - startX d) / scale st2,
                  vy = vy off + (clientY e - startY d) / scale st2\<rparr>)\<rparr>"
    using inv(1) d(2) d(3) assms(1) d(4) by (rule handleMouseMove_node)
  have "fold handleMouseMove (es @ [e]) st1 = handleMouseMove e st2"
    by (simp add: st2_def)
  then show ?thesis
    unfolding Let_def st1_def [symmetric] off_def [symmetric]
    using last inv d(5,6) by (simp add: st1)
qed

theorem nodeDrag_offset_witness:
  "''root'' \<noteq> [] \<and> 0 < scale (exampleState\<lparr>scale := 2\<rparr>)
   \<and> nodeOffsets (fold handleMouseMove
         [\<lparr>clientX = 500, clientY = 7\<rparr>, \<lparr>clientX = 30, clientY = 50\<rparr>]
         (handleNodeDragStart \<lparr>clientX = 10, clientY = 20\<rparr> ''root''
            (exampleState\<lparr>scale := 2, pan := \<lparr>vx = 77, vy = -5\<rparr>\<rparr>))) ''root''
       = Some \<lparr>vx = 10, vy = 15\<rparr>"
  using nodeDrag_offset [of "''root''" "exampleState\<lparr>scale := 2\<rparr>"
      "[\<lparr>clientX = 500, clientY = 7\<rparr>]" "\<lparr>clientX = 30, clientY = 50\<rparr>"
      "\<lparr>clientX = 10, clientY = 20\<rparr>" "\<lparr>vx = 77, vy = -5\<rparr>"]
  by (simp add: exampleState_def Let_def)

section \<open>Branch requests\<close>

text \<open>
  C7 (as amended). \<^verbatim>\<open>handleBranch\<close> tests nothing: whatever the source column,
  the source message id and the selected text are, it appends exactly one new
  column that refers to them, and selects it. An empty span is rejected earlier,
  where the span is picked: a mouse-up whose selection is empty after trimming
  leaves the bubble's state as it was, a selection recorded by a mouse-up from a
  bubble without one has a non-empty text, and a bubble without a selection
  issues no request from either of its two buttons, so no column is created.
\<close>

theorem branch_request_gating:
  shows "(let r = handleBranch newColId sourceColumnId sourceMessageId selectedText customPrompt st
          in \<exists>newColumn.
               columns (fst r) = columns st @ [newColumn]
               \<and> col_id newColumn = newColId
               \<and> parentId newColumn = Some sourceColumnId
               \<and> parentMessageId newColumn = Some sourceMessageId
               \<and> contextSnippet newColumn = Some selectedText
               \<and> selectedColumnId (fst r) = newColId)
       \<and> (trim (selectedString ws) = [] \<longrightarrow> handleMouseUp (Some ws) bs = bs)
       \<and> (bubble_selection bs = None \<longrightarrow>
            (\<forall>sel. bubble_selection (handleMouseUp w bs) = Some sel \<longrightarrow> sel_text sel \<noteq> []))
       \<and> (bubble_selection bs = None \<longrightarrow>
            onBranch newColId columnId (snd (handleDeepDive messageId bs)) st = (st, [])
            \<and> onBranch newColId columnId (snd (handleCustomAskSubmit messageId bs)) st = (st, []))"
  by (auto simp add: handleBranch_def Let_def handleMouseUp_def handleDeepDive_def
      handleCustomAskSubmit_def onBranch_def split: option.splits)

theorem branch_request_gating_witness:
  "trim (selectedString \<lparr>rangeCount = 1, selectedString = ''  '', anchorInBubble = True,
         rect_left = 0, rect_top = 0, rect_width = 0\<rparr>) = []
   \<and> bubble_selection \<lparr>bubble_selection = None, inputMode = False, customQuery = []\<rparr> = None
   \<and> onBranch ''new'' ''root''
        (snd (handleDeepDive ''m1''
           (handleMouseUp
              (Some \<lparr>rangeCount = 1, selectedString = ''  '', anchorInBubble = True,
                     rect_left = 0, rect_top = 0, rect_width = 0\<rparr>)
              \<lparr>bubble_selection = None, inputMode = False, customQuery = []\<rparr>)))
        exampleState = (exampleState, [])"
  using branch_request_gating
    [of "''new''" "''root''" "''m1''" "''X''" None exampleState
        "\<lparr>rangeCount = 1, selectedString = ''  '', anchorInBubble = True,
          rect_left = 0, rect_top = 0, rect_width = 0\<rparr>"
        "\<lparr>bubble_selection = None, inputMode = False, customQuery = []\<rparr>" _ "''root''" "''m1''"]
  by (simp add: trim_def isWhiteSpace_def)

text \<open>
  A request whose source message id is in no message list, and one whose span
  is empty, each create a column when they reach \<^verbatim>\<open>handleBranch\<close>.
\<close>

theorem handleBranch_missing_message_counterexample:
  "''m404'' \<notin> msg_id ` set (messages exampleRoot)
   \<and> find (\<lambda>c. col_id c = ''root'') (columns exampleState) = Some exampleRoot
   \<and> length (columns (fst (handleBranch ''new'' ''root'' ''m404'' ''X'' None exampleState))) = 2
   \<and> columns (fst (handleBranch ''new'' ''root'' ''m404'' ''X'' None exampleState))
       \<noteq> columns exampleState
   \<and> length (columns (fst (handleBranch ''new'' ''root'' ''m404'' [] None exampleState))) = 2"
  by (simp add: handleBranch_def exampleState_def exampleRoot_def Let_def)

section \<open>Linearization\<close>

lemma findIndex_prefixThrough:
  assumes "\<exists>m \<in> set ms. msg_id m = mid"
  shows "findIndex (\<lambda>m. Some (msg_id m) = Some mid) ms \<noteq> -1
       \<and> 0 \<le> findIndex (\<lambda>m. Some (msg_id m) = Some mid) ms
       \<and> take (nat (findIndex (\<lambda>m. Some (msg_id m) = Some mid) ms + 1)) ms = prefixThrough mid ms"
  using assms
proof (induction ms)
  case Nil
  then show ?case by simp
next
  case (Cons m ms)
  show ?case
  proof (cases "msg_id m = mid")
    case True
    then show ?thesis by simp
  next
    case False
    with Cons.prems have "\<exists>m \<in> set ms. msg_id m = mid" by auto
    from Cons.IH [OF this]
    have ih: "findIndex (\<lambda>m. Some (msg_id m) = Some mid) ms \<noteq> -1"
      "0 \<le> findIndex (\<lambda>m. Some (msg_id m) = Some mid) ms"
      "take (nat (findIndex (\<lambda>m. Some (msg_id m) = Some mid) ms + 1)) ms = prefixThrough mid ms"
      by simp_all
    have suc: "nat (findIndex (\<lambda>m. Some (msg_id m) = Some mid) ms + 1 + 1)
        = Suc (nat (findIndex (\<lambda>m. Some (msg_id m) = Some mid) ms + 1))"
      using ih(2) by simp
    have fi: "findIndex (\<lambda>m. Some (msg_id m) = Some mid) (m # ms)
        = findIndex (\<lambda>m. Some (msg_id m) = Some mid) ms + 1"
      using False ih(1) by (simp add: Let_def)
    show ?thesis
      unfolding fi suc using ih False by simp
  qed
qed

lemma flattenPath_linearized:
  "pathResolves cols p \<Longrightarrow> \<forall>c \<in> set p. contextSnippet c \<noteq> Some [] \<Longrightarrow>
     flattenPath p = linearized p"
proof (induction p rule: flattenPath.induct)
  case 1
  then show ?case by simp
next
  case (2 col)
  then show ?case by (simp add: toContent_def)
next
  case (3 col nextCol rest)
  from "3.prems"(1) obtain m where m: "m \<in> set (messages col)" "parentMessageId nextCol = Some (msg_id m)"
    and rest: "pathResolves cols (nextCol # rest)"
    by auto
  from "3.prems"(2) have spans: "\<forall>c \<in> set (nextCol # rest). contextSnippet c \<noteq> Some []"
    and span: "contextSnippet nextCol \<noteq> Some []"
    by simp_all
  have ex: "\<exists>m' \<in> set (messages col). msg_id m' = msg_id m" using m(1) by blast
  note fi = findIndex_prefixThrough [OF ex]
  have snip: "(if truthy (contextSnippet nextCol) then [branchPrompt (the (contextSnippet nextCol))] else [])
      = (case contextSnippet nextCol of None \<Rightarrow> []
         | Some forkSpan \<Rightarrow> [branchNote forkSpan])"
    using span by (cases "contextSnippet nextCol") (auto simp: truthy_def branchPrompt_def branchNote_def)
  have msgs: "map toContent ms = map (\<lambda>m. (msg_role m, msg_text m)) ms" for ms
    by (simp add: toContent_def)
  show ?case
    using fi "3.IH" [OF refl refl rest spans] snip
    by (simp add: Let_def m(2) msgs)
qed

lemma findPath_None: "findPath cols None acc = Some acc"
  by (subst findPath.simps) (simp add: truthy_def)

lemma pathResolves_snoc2:
  "pathResolves cols (p @ [b, c]) \<Longrightarrow>
     pathResolves cols (p @ [b]) \<and> resolvesTo cols c \<and> parentId c = Some (col_id b)
     \<and> resolvesTo cols b"
  by (induction cols p rule: pathResolves.induct) auto

lemma findPath_resolves:
  assumes "pathResolves cols (p @ [c])" and "parentId (hd (p @ [c])) = None"
  shows "findPath cols (Some (col_id c)) acc = Some (p @ c # acc)"
  using assms
proof (induction p arbitrary: c acc rule: rev_induct)
  case Nil
  then have "resolvesTo cols c" "parentId c = None" by simp_all
  then show ?case
    by (subst findPath.simps) (simp add: resolvesTo_def truthy_def findPath_None)
next
  case (snoc b p)
  from snoc.prems(1) have pr: "pathResolves cols (p @ [b, c])" by simp
  note s = pathResolves_snoc2 [OF pr]
  have hd: "parentId (hd (p @ [b])) = None"
    using snoc.prems(2) by (cases p) simp_all
  have step: "findPath cols (Some (col_id c)) acc = findPath cols (Some (col_id b)) (c # acc)"
    using s by (subst findPath.simps) (simp add: resolvesTo_def truthy_def)
  from snoc.IH [of b "c # acc"] s hd show ?case
    by (simp add: step)
qed

lemma branchNote_quotes:
  "fst (branchNote forkSpan) = User
   \<and> (\<exists>before after. snd (branchNote forkSpan) = before @ forkSpan @ after)"
  unfolding branchNote_def by (intro conjI exI [of _ "[CHR 0x22]"] exI) simp_all

text \<open>
  C1. For a path \<open>p\<close> from a root to the target that resolves in the column
  list, the linearized context is, in root-to-target order and message by
  message with its role and its text: for each ancestor, the prefix of its
  messages through the message the next node's \<^verbatim>\<open>parentMessageId\<close> names, then
  one synthetic message when the next node has a fork span; and last all of
  the target's messages. The synthetic message has the user role and its text
  quotes the fork span. A fork span that is recorded is not empty (a span is
  recorded from a selection that is not empty after trimming).
\<close>

theorem buildHistoryForColumn_linearized:
  assumes "p \<noteq> []" and "parentId (hd p) = None" and "pathResolves cols p"
    and "\<forall>c \<in> set p. contextSnippet c \<noteq> Some []"
  shows "buildHistoryForColumn (col_id (last p)) cols = Some (linearized p)
       \<and> (\<forall>forkSpan. fst (branchNote forkSpan) = User
            \<and> (\<exists>before after. snd (branchNote forkSpan) = before @ forkSpan @ after))"
proof -
  from assms(1) obtain q c where p: "p = q @ [c]"
    by (metis rev_exhaust)
  have "findPath cols (Some (col_id c)) [] = Some (q @ [c])"
    using findPath_resolves [of cols q c "[]"] assms(2,3) by (simp add: p)
  then have "buildHistoryForColumn (col_id (last p)) cols = Some (linearized p)"
    using flattenPath_linearized [OF assms(3,4)] by (simp add: buildHistoryForColumn_def p)
  then show ?thesis
    using branchNote_quotes by blast
qed

text \<open>
  The example of the specification: the root holds \<open>u1, a1, u2, a2\<close>, the branch
  \<open>B\<close> forked at \<open>a1\<close> with the span \<open>X\<close> and holds \<open>u3, a3\<close>. The context of \<open>B\<close> is
  \<open>u1, a1\<close>, the synthetic user message that quotes \<open>X\<close>, \<open>u3, a3\<close>, each with its
  role and text; \<open>u2\<close> and \<open>a2\<close> are not in it.
\<close>

theorem buildHistoryForColumn_linearized_witness:
  "[exampleTrunk, exampleBranch] \<noteq> [] \<and> parentId (hd [exampleTrunk, exampleBranch]) = None
   \<and> pathResolves [exampleTrunk, exampleBranch] [exampleTrunk, exampleBranch]
   \<and> contextSnippet exampleTrunk \<noteq> Some [] \<and> contextSnippet exampleBranch \<noteq> Some []
   \<and> buildHistoryForColumn ''B'' [exampleTrunk, exampleBranch]
       = Some [(User, ''question 1''), (Model, ''answer 1 about X''),
               (User, ''I want to branch off and discuss specifically about: '' @ [CHR 0x22]
                        @ ''X'' @ [CHR 0x22]),
               (User, ''question 3''), (Model, ''answer 3'')]
   \<and> (User, ''question 2'') \<notin> set (the (buildHistoryForColumn ''B'' [exampleTrunk, exampleBranch]))
   \<and> (Model, ''answer 2'') \<notin> set (the (buildHistoryForColumn ''B'' [exampleTrunk, exampleBranch]))"
proof -
  have r: "pathResolves [exampleTrunk, exampleBranch] [exampleTrunk, exampleBranch]"
    by (simp add: resolvesTo_def exampleTrunk_def exampleBranch_def exampleRoot_def u1_def a1_def)
  have h: "parentId (hd [exampleTrunk, exampleBranch]) = None"
    by (simp add: exampleTrunk_def exampleRoot_def)
  have sp: "contextSnippet exampleTrunk \<noteq> Some []" "contextSnippet exampleBranch \<noteq> Some []"
    by (simp_all add: exampleTrunk_def exampleBranch_def exampleRoot_def)
  then have spans: "\<forall>c \<in> set [exampleTrunk, exampleBranch]. contextSnippet c \<noteq> Some []"
    by simp
  have l: "linearized [exampleTrunk, exampleBranch]
      = [(User, ''question 1''), (Model, ''answer 1 about X''),
         (User, ''I want to branch off and discuss specifically about: '' @ [CHR 0x22]
                  @ ''X'' @ [CHR 0x22]),
         (User, ''question 3''), (Model, ''answer 3'')]"
    by (simp add: exampleTrunk_def exampleBranch_def exampleRoot_def branchNote_def
        u1_def a1_def u3_def a3_def)
  have b: "col_id (last [exampleTrunk, exampleBranch]) = ''B''"
    by (simp add: exampleBranch_def)
  have "buildHistoryForColumn (col_id (last [exampleTrunk, exampleBranch])) [exampleTrunk, exampleBranch]
      = Some (linearized [exampleTrunk, exampleBranch])"
    using buildHistoryForColumn_linearized [OF _ h r spans] by simp
  then have "buildHistoryForColumn ''B'' [exampleTrunk, exampleBranch]
      = Some [(User, ''question 1''), (Model, ''answer 1 about X''),
         (User, ''I want to branch off and discuss specifically about: '' @ [CHR 0x22]
                  @ ''X'' @ [CHR 0x22]),
         (User, ''question 3''), (Model, ''answer 3'')]"
    unfolding b l .
  then show ?thesis
    using r h sp by simp
qed

section \<open>Facts about the parent relation\<close>

lemma finite_parentRel: "finite (parentRel cols)"
proof -
  have "parentRel cols \<subseteq> (\<lambda>c. (the (parentId c), col_id c)) ` set cols"
    by (force simp: parentRel_def)
  then show ?thesis
    by (rule finite_subset) simp
qed

lemma child_in_parentRel:
  "c \<in> set (getChildren cols (Some k)) \<Longrightarrow> (k, col_id c) \<in> parentRel cols"
  by (auto simp: getChildren_def parentRel_def)

lemma parentRel_child:
  "(k, j) \<in> parentRel cols \<Longrightarrow> \<exists>c \<in> set (getChildren cols (Some k)). col_id c = j"
  by (auto simp: getChildren_def parentRel_def)

lemma descendants_self: "k \<in> descendants cols k"
  by (simp add: descendants_def)

lemma descendants_unfold:
  "descendants cols k = insert k (\<Union>c \<in> set (getChildren cols (Some k)). descendants cols (col_id c))"
proof (intro set_eqI iffI)
  fix j
  assume "j \<in> descendants cols k"
  then have "(k, j) \<in> (parentRel cols)\<^sup>*" by (simp add: descendants_def)
  then show "j \<in> insert k (\<Union>c \<in> set (getChildren cols (Some k)). descendants cols (col_id c))"
  proof (cases rule: converse_rtranclE)
    case base
    then show ?thesis by simp
  next
    case (step i)
    from parentRel_child [OF step(1)] obtain c
      where "c \<in> set (getChildren cols (Some k))" "col_id c = i" by blast
    with step(2) show ?thesis
      by (auto simp: descendants_def)
  qed
next
  fix j
  assume "j \<in> insert k (\<Union>c \<in> set (getChildren cols (Some k)). descendants cols (col_id c))"
  then show "j \<in> descendants cols k"
    by (auto simp: descendants_def dest!: child_in_parentRel intro: converse_rtrancl_into_rtrancl)
qed

lemma descendants_step:
  "j \<in> descendants cols k \<Longrightarrow> (j, i) \<in> parentRel cols \<Longrightarrow> i \<in> descendants cols k"
  by (auto simp: descendants_def intro: rtrancl_into_rtrancl)

section \<open>The layout recursion returns\<close>

lemma positionChildren_returns:
  assumes "\<forall>c \<in> set cs. \<forall>x y L. positionNode n cols hs (col_id c) x y L \<noteq> None"
  shows "positionChildren n cols hs cs x y L \<noteq> None"
  using assms by (induction cs arbitrary: y L) (auto split: option.splits)

lemma uniform_bound:
  assumes "\<forall>c \<in> set cs. \<exists>n. \<forall>m \<ge> n. Q c m"
  shows "\<exists>n::nat. \<forall>c \<in> set cs. \<forall>m \<ge> n. Q c m"
  using assms
proof (induction cs)
  case Nil
  then show ?case by simp
next
  case (Cons c cs)
  then obtain n1 n2 where "\<forall>m \<ge> n1. Q c m" "\<forall>c \<in> set cs. \<forall>m \<ge> n2. Q c m"
    by auto
  then have "\<forall>c' \<in> set (c # cs). \<forall>m \<ge> max n1 n2. Q c' m"
    by auto
  then show ?case by blast
qed

lemma positionNode_returns:
  assumes "acyclic (parentRel cols)"
  shows "\<exists>n. \<forall>m \<ge> n. \<forall>x y L. positionNode m cols hs k x y L \<noteq> None"
proof -
  have "wf ((parentRel cols)\<inverse>)"
    using finite_parentRel assms by (rule finite_acyclic_wf_converse)
  then show ?thesis
  proof (induction k rule: wf_induct_rule)
    case (less k)
    have "\<forall>c \<in> set (getChildren cols (Some k)).
            \<exists>n. \<forall>m \<ge> n. \<forall>x y L. positionNode m cols hs (col_id c) x y L \<noteq> None"
      using less.IH child_in_parentRel by blast
    from uniform_bound [OF this] obtain n
      where n: "\<forall>c \<in> set (getChildren cols (Some k)).
                  \<forall>m \<ge> n. \<forall>x y L. positionNode m cols hs (col_id c) x y L \<noteq> None"
      by blast
    have "positionNode m cols hs k x y L \<noteq> None" if "m \<ge> Suc n" for m x y L
    proof -
      from that obtain m' where m': "m = Suc m'" "m' \<ge> n"
        by (cases m) auto
      have "positionChildren m' cols hs (getChildren cols (Some k)) (x + NODE_WIDTH + NODE_GAP_X) y
              (L(k \<mapsto> \<lparr>pos_x = x, pos_y = y + heightOf hs k / 2, pos_height = heightOf hs k\<rparr>))
            \<noteq> None"
        using n m'(2) by (intro positionChildren_returns) blast
      then show ?thesis
        by (auto simp: m'(1) Let_def split: option.splits)
    qed
    then show ?case by blast
  qed
qed

lemma positionNode_depth_mono:
  "positionNode n cols hs k x y L = Some r \<Longrightarrow> n \<le> m \<Longrightarrow> positionNode m cols hs k x y L = Some r"
  and positionChildren_depth_mono:
  "positionChildren n cols hs cs x y L = Some r \<Longrightarrow> n \<le> m \<Longrightarrow> positionChildren m cols hs cs x y L = Some r"
proof (induction n cols hs k x y L and n cols hs cs x y L arbitrary: m r and m r
    rule: positionNode_positionChildren.induct)
  case (1 columns heights nodeId x startY newLayout)
  then show ?case by simp
next
  case (2 depth columns heights nodeId x startY newLayout)
  from "2.prems"(2) obtain m' where m': "m = Suc m'" "depth \<le> m'"
    by (cases m) auto
  show ?case
  proof (cases "length (getChildren columns (Some nodeId)) = 0")
    case True
    with "2.prems"(1) show ?thesis by (simp add: m'(1) Let_def)
  next
    case False
    with "2.prems"(1) obtain r' where
      r': "positionChildren depth columns heights (getChildren columns (Some nodeId))
             (x + NODE_WIDTH + NODE_GAP_X) startY
             (newLayout(nodeId \<mapsto> \<lparr>pos_x = x, pos_y = startY + heightOf heights nodeId / 2,
                                   pos_height = heightOf heights nodeId\<rparr>)) = Some r'"
      by (auto simp: Let_def split: option.splits)
    from "2.IH" [OF refl refl refl refl _ r' m'(2)] False
    have "positionChildren m' columns heights (getChildren columns (Some nodeId))
             (x + NODE_WIDTH + NODE_GAP_X) startY
             (newLayout(nodeId \<mapsto> \<lparr>pos_x = x, pos_y = startY + heightOf heights nodeId / 2,
                                   pos_height = heightOf heights nodeId\<rparr>)) = Some r'"
      by (simp add: fun_upd_def)
    with "2.prems"(1) r' False show ?thesis
      by (simp add: m'(1) Let_def)
  qed
next
  case (3 depth columns heights x currentChildTopY newLayout)
  then show ?case by simp
next
  case (4 depth columns heights child rest x currentChildTopY newLayout)
  from "4.prems"(1) obtain laidOut b where
    one: "positionNode depth columns heights (col_id child) x currentChildTopY newLayout = Some (laidOut, b)"
    and two: "positionChildren depth columns heights rest x (b + NODE_GAP_Y) laidOut = Some r"
    by (auto split: option.splits)
  from "4.IH"(1) [OF one "4.prems"(2)] "4.IH"(2) [OF one refl two "4.prems"(2)]
  show ?case by simp
qed

lemma calculateLayout_returns:
  assumes "acyclic (parentRel cols)"
  shows "\<exists>n L. \<forall>m \<ge> n. calculateLayout m cols hs = Some L"
proof -
  have "\<forall>c \<in> set (getChildren cols None).
          \<exists>n. \<forall>m \<ge> n. \<forall>x y L. positionNode m cols hs (col_id c) x y L \<noteq> None"
    using positionNode_returns [OF assms] by blast
  from uniform_bound [OF this] obtain n
    where n: "\<forall>c \<in> set (getChildren cols None).
                \<forall>m \<ge> n. \<forall>x y L. positionNode m cols hs (col_id c) x y L \<noteq> None"
    by blast
  have "positionChildren n cols hs (getChildren cols None) 0 0 Map.empty \<noteq> None"
    using n by (intro positionChildren_returns) blast
  then obtain r where r: "positionChildren n cols hs (getChildren cols None) 0 0 Map.empty = Some r"
    by blast
  have "\<forall>m \<ge> n. calculateLayout m cols hs = Some (fst r)"
    using positionChildren_depth_mono [OF r] by (simp add: calculateLayout_def)
  then show ?thesis by blast
qed

section \<open>The ids that the layout holds\<close>

lemma dom_positionChildren:
  assumes node: "\<And>k x y L L' b. positionNode n cols hs k x y L = Some (L', b)
                   \<Longrightarrow> dom L' = dom L \<union> descendants cols k"
    and "positionChildren n cols hs cs x y L = Some (L', y')"
  shows "dom L' = dom L \<union> (\<Union>c \<in> set cs. descendants cols (col_id c))"
  using assms(2)
proof (induction cs arbitrary: y L)
  case Nil
  then show ?case by simp
next
  case (Cons c cs)
  from Cons.prems obtain L1 b where
    one: "positionNode n cols hs (col_id c) x y L = Some (L1, b)"
    and two: "positionChildren n cols hs cs x (b + NODE_GAP_Y) L1 = Some (L', y')"
    by (auto split: option.splits)
  from node [OF one] Cons.IH [OF two] show ?case
    by auto
qed

lemma dom_positionNode:
  "positionNode n cols hs k x y L = Some (L', b) \<Longrightarrow> dom L' = dom L \<union> descendants cols k"
proof (induction n arbitrary: k x y L L' b)
  case 0
  then show ?case by simp
next
  case (Suc n)
  let ?placed = "L(k \<mapsto> \<lparr>pos_x = x, pos_y = y + heightOf hs k / 2, pos_height = heightOf hs k\<rparr>)"
  show ?case
  proof (cases "getChildren cols (Some k) = []")
    case True
    with Suc.prems have "L' = ?placed" by (simp add: Let_def)
    moreover have "descendants cols k = {k}"
      by (subst descendants_unfold) (simp add: True)
    ultimately show ?thesis by auto
  next
    case False
    with Suc.prems obtain y' where
      kids: "positionChildren n cols hs (getChildren cols (Some k)) (x + NODE_WIDTH + NODE_GAP_X) y ?placed
               = Some (L', y')"
      by (auto simp: Let_def split: option.splits)
    have "dom L' = dom ?placed \<union> (\<Union>c \<in> set (getChildren cols (Some k)). descendants cols (col_id c))"
      using Suc.IH kids by (rule dom_positionChildren)
    then show ?thesis
      by (subst descendants_unfold) auto
  qed
qed

lemma dom_calculateLayout:
  assumes "calculateLayout m cols hs = Some L"
  shows "dom L = rootReach cols"
proof -
  from assms obtain y' where
    "positionChildren m cols hs (getChildren cols None) 0 0 Map.empty = Some (L, y')"
    by (auto simp: calculateLayout_def)
  from dom_positionChildren [OF dom_positionNode this] show ?thesis
    by (simp add: rootReach_def)
qed

lemma rootReach_subset: "rootReach cols \<subseteq> col_id ` set cols"
proof
  fix j
  assume "j \<in> rootReach cols"
  then obtain r where r: "r \<in> set cols" "(col_id r, j) \<in> (parentRel cols)\<^sup>*"
    by (auto simp: rootReach_def descendants_def getChildren_def)
  from r(2) show "j \<in> col_id ` set cols"
  proof (cases rule: rtranclE)
    case base
    with r(1) show ?thesis by auto
  next
    case (step i)
    then show ?thesis by (auto simp: parentRel_def)
  qed
qed

lemma rootReach_all:
  assumes "acyclic (parentRel cols)"
    and "\<forall>c \<in> set cols. \<forall>p. parentId c = Some p \<longrightarrow> p \<in> col_id ` set cols"
  shows "col_id ` set cols \<subseteq> rootReach cols"
proof -
  have "wf (parentRel cols)"
    using finite_parentRel assms(1) by (rule finite_acyclic_wf)
  then have "k \<in> col_id ` set cols \<longrightarrow> k \<in> rootReach cols" for k
  proof (induction k rule: wf_induct_rule)
    case (less k)
    show ?case
    proof
      assume "k \<in> col_id ` set cols"
      then obtain c where c: "c \<in> set cols" "col_id c = k" by auto
      show "k \<in> rootReach cols"
      proof (cases "parentId c")
        case None
        with c have "c \<in> set (getChildren cols None)" by (simp add: getChildren_def)
        with c(2) show ?thesis
          using descendants_self [of k cols] by (auto simp: rootReach_def)
      next
        case (Some p)
        with c have edge: "(p, k) \<in> parentRel cols" by (auto simp: parentRel_def)
        from assms(2) c(1) Some have "p \<in> col_id ` set cols" by blast
        with less.IH [OF edge] have "p \<in> rootReach cols" by blast
        with edge show ?thesis
          by (auto simp: rootReach_def intro: descendants_step)
      qed
    qed
  qed
  then show ?thesis by blast
qed

section \<open>Every column has its layout entry\<close>

text \<open>
  C9. When every \<^verbatim>\<open>parentId\<close> that is not \<^verbatim>\<open>null\<close> is the id of a column of the
  list and the parent links are acyclic, the layout is computed (at every
  recursion depth from some depth on, with one result) and its keys are exactly
  the ids of the columns: no column is missing and no other id has an entry.
  In any layout that is computed, a column whose id is not reached from a root
  has no entry, and the nodes layer renders nothing for it.
\<close>

theorem calculateLayout_covers_columns:
  shows "(acyclic (parentRel cols)
          \<and> (\<forall>c \<in> set cols. \<forall>p. parentId c = Some p \<longrightarrow> p \<in> col_id ` set cols)
          \<longrightarrow> (\<exists>n L. (\<forall>m \<ge> n. calculateLayout m cols hs = Some L) \<and> dom L = col_id ` set cols))
       \<and> (calculateLayout m cols hs = Some L \<and> c \<in> set cols \<and> col_id c \<notin> rootReach cols
          \<longrightarrow> L (col_id c) = None \<and> renderColumn L offsets c = None)"
proof (intro conjI impI)
  assume h: "acyclic (parentRel cols)
     \<and> (\<forall>c \<in> set cols. \<forall>p. parentId c = Some p \<longrightarrow> p \<in> col_id ` set cols)"
  from calculateLayout_returns [of cols hs] h obtain n L'
    where L': "\<forall>m \<ge> n. calculateLayout m cols hs = Some L'" by blast
  then have "calculateLayout n cols hs = Some L'" by simp
  then have "dom L' = rootReach cols" by (rule dom_calculateLayout)
  also have "\<dots> = col_id ` set cols"
    using rootReach_subset [of cols] rootReach_all [of cols] h by blast
  finally show "\<exists>n L. (\<forall>m \<ge> n. calculateLayout m cols hs = Some L) \<and> dom L = col_id ` set cols"
    using L' by blast
next
  assume h: "calculateLayout m cols hs = Some L \<and> c \<in> set cols \<and> col_id c \<notin> rootReach cols"
  then have "dom L = rootReach cols" by (auto dest: dom_calculateLayout)
  with h show "L (col_id c) = None" by auto
  then show "renderColumn L offsets c = None" by (simp add: renderColumn_def)
qed

theorem calculateLayout_covers_columns_witness:
  "acyclic (parentRel [exampleTrunk, exampleBranch])
   \<and> (\<exists>n L. (\<forall>m \<ge> n. calculateLayout m [exampleTrunk, exampleBranch] Map.empty = Some L)
          \<and> dom L = {''root'', ''B''})
   \<and> exampleOrphan \<in> set [exampleTrunk, exampleOrphan]
   \<and> col_id exampleOrphan \<notin> rootReach [exampleTrunk, exampleOrphan]
   \<and> calculateLayout (Suc (Suc 0)) [exampleTrunk, exampleOrphan] Map.empty \<noteq> None
   \<and> renderColumn (the (calculateLayout (Suc (Suc 0)) [exampleTrunk, exampleOrphan] Map.empty))
         Map.empty exampleOrphan = None"
proof -
  have edges: "parentRel [exampleTrunk, exampleBranch] = {(''root'', ''B'')}"
    by (auto simp: parentRel_def exampleTrunk_def exampleBranch_def exampleRoot_def)
  have ac: "acyclic (parentRel [exampleTrunk, exampleBranch])"
    unfolding edges by (rule acyclicI_order [where f = length]) simp
  have closed: "\<forall>c \<in> set [exampleTrunk, exampleBranch]. \<forall>p. parentId c = Some p
      \<longrightarrow> p \<in> col_id ` set [exampleTrunk, exampleBranch]"
    by (simp add: exampleTrunk_def exampleBranch_def exampleRoot_def)
  have ids: "col_id ` set [exampleTrunk, exampleBranch] = {''root'', ''B''}"
    by (simp add: exampleTrunk_def exampleBranch_def exampleRoot_def)
  have kids: "getChildren [exampleTrunk, exampleOrphan] (Some ''root'') = []"
    by (simp add: getChildren_def exampleTrunk_def exampleOrphan_def exampleRoot_def)
  have roots: "getChildren [exampleTrunk, exampleOrphan] None = [exampleTrunk]"
    by (simp add: getChildren_def exampleTrunk_def exampleOrphan_def exampleRoot_def)
  have "descendants [exampleTrunk, exampleOrphan] ''root'' = {''root''}"
    by (subst descendants_unfold) (simp add: kids)
  moreover have "col_id exampleTrunk = ''root''"
    by (simp add: exampleTrunk_def exampleRoot_def)
  ultimately have "rootReach [exampleTrunk, exampleOrphan] = {''root''}"
    by (simp add: rootReach_def roots)
  then have unreached: "col_id exampleOrphan \<notin> rootReach [exampleTrunk, exampleOrphan]"
    by (simp add: exampleOrphan_def)
  have runs: "calculateLayout (Suc (Suc 0)) [exampleTrunk, exampleOrphan] Map.empty \<noteq> None"
    by (simp add: calculateLayout_def getChildren_def Let_def exampleTrunk_def exampleOrphan_def
        exampleRoot_def)
  then have some: "calculateLayout (Suc (Suc 0)) [exampleTrunk, exampleOrphan] Map.empty
      = Some (the (calculateLayout (Suc (Suc 0)) [exampleTrunk, exampleOrphan] Map.empty))"
    by simp
  show ?thesis
    using calculateLayout_covers_columns [of "[exampleTrunk, exampleBranch]" Map.empty]
      calculateLayout_covers_columns [of "[exampleTrunk, exampleOrphan]" Map.empty "Suc (Suc 0)"
        "the (calculateLayout (Suc (Suc 0)) [exampleTrunk, exampleOrphan] Map.empty)"
        exampleOrphan Map.empty]
      ac closed unreached runs some
    unfolding ids by simp
qed

section \<open>Subtrees are stacked one below the other\<close>

lemma child_not_ancestor:
  assumes "acyclic (parentRel cols)" and "c \<in> set (getChildren cols (Some k))"
  shows "k \<notin> descendants cols (col_id c)"
proof
  assume "k \<in> descendants cols (col_id c)"
  then have "(col_id c, k) \<in> (parentRel cols)\<^sup>*" by (simp add: descendants_def)
  with child_in_parentRel [OF assms(2)] have "(k, k) \<in> (parentRel cols)\<^sup>+"
    by (rule rtrancl_into_trancl2)
  with assms(1) show False by (simp add: acyclic_def)
qed

lemma heightOf_nonneg:
  assumes "\<forall>k h. hs k = Some h \<longrightarrow> 0 \<le> h"
  shows "0 \<le> heightOf hs k"
  using assms by (auto simp: heightOf_def NODE_DEFAULT_HEIGHT_def split: option.splits)

lemma related_sym: "related cols a b \<longleftrightarrow> related cols b a"
  by (auto simp: related_def)

lemma related_descendant: "j \<in> descendants cols k \<Longrightarrow> related cols k j"
  by (simp add: related_def)

lemma placedWithin_empty: "placedWithin cols L {} lo hi"
  by (simp add: placedWithin_def)

lemma placedWithin_cong:
  assumes "\<forall>j \<in> S. L' j = L j" and "placedWithin cols L S lo hi"
  shows "placedWithin cols L' S lo hi"
  using assms by (simp add: placedWithin_def)

lemma placedWithin_subset:
  assumes "S' \<subseteq> S" and "placedWithin cols L S lo hi"
  shows "placedWithin cols L S' lo hi"
  unfolding placedWithin_def
proof (intro conjI ballI impI)
  fix j assume "j \<in> S'"
  with assms(1) have "j \<in> S" by blast
  with assms(2) show "\<exists>e. L j = Some e \<and> lo \<le> rectTop e \<and> rectBottom e \<le> hi"
    unfolding placedWithin_def by blast
next
  fix a b assume "a \<in> S'" "b \<in> S'" "\<not> related cols a b"
  with assms(1) have "a \<in> S" "b \<in> S" "\<not> related cols a b" by blast+
  with assms(2) show "rectBottom (the (L a)) + NODE_GAP_Y \<le> rectTop (the (L b))
      \<or> rectBottom (the (L b)) + NODE_GAP_Y \<le> rectTop (the (L a))"
    unfolding placedWithin_def by blast
qed

lemma placedWithin_union:
  assumes A: "placedWithin cols L A lo mid"
    and B: "placedWithin cols L B (mid + NODE_GAP_Y) hi"
    and "lo \<le> mid + NODE_GAP_Y" and "mid \<le> hi"
  shows "placedWithin cols L (A \<union> B) lo hi"
  unfolding placedWithin_def
proof (intro conjI ballI impI)
  fix j
  assume "j \<in> A \<union> B"
  then show "\<exists>e. L j = Some e \<and> lo \<le> rectTop e \<and> rectBottom e \<le> hi"
  proof
    assume "j \<in> A"
    with A obtain e where "L j = Some e" "lo \<le> rectTop e" "rectBottom e \<le> mid"
      by (auto simp: placedWithin_def)
    with assms(4) show ?thesis by auto
  next
    assume "j \<in> B"
    with B obtain e where "L j = Some e" "mid + NODE_GAP_Y \<le> rectTop e" "rectBottom e \<le> hi"
      by (auto simp: placedWithin_def)
    with assms(3) show ?thesis by auto
  qed
next
  fix a b
  assume ab: "a \<in> A \<union> B" "b \<in> A \<union> B" "\<not> related cols a b"
  have cross: "rectBottom (the (L i)) + NODE_GAP_Y \<le> rectTop (the (L j))"
    if "i \<in> A" "j \<in> B" for i j
  proof -
    from A that(1) obtain e where "L i = Some e" "rectBottom e \<le> mid"
      by (auto simp: placedWithin_def)
    moreover from B that(2) obtain e' where "L j = Some e'" "mid + NODE_GAP_Y \<le> rectTop e'"
      by (auto simp: placedWithin_def)
    ultimately show ?thesis by simp
  qed
  from ab(1,2) consider "a \<in> A" "b \<in> A" | "a \<in> B" "b \<in> B" | "a \<in> A" "b \<in> B" | "a \<in> B" "b \<in> A"
    by blast
  then show "rectBottom (the (L a)) + NODE_GAP_Y \<le> rectTop (the (L b))
      \<or> rectBottom (the (L b)) + NODE_GAP_Y \<le> rectTop (the (L a))"
  proof cases
    case 1
    with A ab(3) show ?thesis by (simp add: placedWithin_def)
  next
    case 2
    with B ab(3) show ?thesis by (simp add: placedWithin_def)
  next
    case 3
    then show ?thesis using cross by blast
  next
    case 4
    then show ?thesis using cross by blast
  qed
qed

lemma placedWithin_insert_root:
  assumes D: "placedWithin cols L D lo hi'"
    and e: "L k = Some e" "lo \<le> rectTop e" "rectBottom e \<le> hi"
    and "hi' \<le> hi"
    and rel: "\<forall>j \<in> D. related cols k j"
  shows "placedWithin cols L (insert k D) lo hi"
  unfolding placedWithin_def
proof (intro conjI ballI impI)
  fix j
  assume "j \<in> insert k D"
  then show "\<exists>e. L j = Some e \<and> lo \<le> rectTop e \<and> rectBottom e \<le> hi"
  proof
    assume "j = k"
    with e show ?thesis by simp
  next
    assume "j \<in> D"
    with D obtain e' where "L j = Some e'" "lo \<le> rectTop e'" "rectBottom e' \<le> hi'"
      by (auto simp: placedWithin_def)
    with assms(5) show ?thesis by auto
  qed
next
  fix a b
  assume ab: "a \<in> insert k D" "b \<in> insert k D" "\<not> related cols a b"
  have "related cols k k" by (simp add: related_def descendants_self)
  with ab rel related_sym [of cols] have "a \<in> D" "b \<in> D" by auto
  with D ab(3) show "rectBottom (the (L a)) + NODE_GAP_Y \<le> rectTop (the (L b))
      \<or> rectBottom (the (L b)) + NODE_GAP_Y \<le> rectTop (the (L a))"
    by (simp add: placedWithin_def)
qed

lemma positionChildren_placed:
  assumes node: "\<And>k x y L L' btm. positionNode n cols hs k x y L = Some (L', btm) \<Longrightarrow>
                 y \<le> btm \<and> (\<forall>j. j \<notin> descendants cols k \<longrightarrow> L' j = L j)
                 \<and> placedWithin cols L' (descendants cols k) y btm"
    and "positionChildren n cols hs cs x y L = Some (L', y')"
  shows "y \<le> y'
       \<and> (\<forall>j. j \<notin> (\<Union>c \<in> set cs. descendants cols (col_id c)) \<longrightarrow> L' j = L j)
       \<and> placedWithin cols L' (\<Union>c \<in> set cs. descendants cols (col_id c)) y (y' - NODE_GAP_Y)"
  using assms(2)
proof (induction cs arbitrary: y L)
  case Nil
  then show ?case by (simp add: placedWithin_empty)
next
  case (Cons c cs)
  let ?A = "descendants cols (col_id c)"
  let ?B = "\<Union>c' \<in> set cs. descendants cols (col_id c')"
  from Cons.prems obtain L1 b1 where
    one: "positionNode n cols hs (col_id c) x y L = Some (L1, b1)"
    and two: "positionChildren n cols hs cs x (b1 + NODE_GAP_Y) L1 = Some (L', y')"
    by (auto split: option.splits)
  from node [OF one] have n1: "y \<le> b1" and n2: "\<forall>j. j \<notin> ?A \<longrightarrow> L1 j = L j"
    and n3: "placedWithin cols L1 ?A y b1"
    by simp_all
  from Cons.IH [OF two] have k1: "b1 + NODE_GAP_Y \<le> y'"
    and k2: "\<forall>j. j \<notin> ?B \<longrightarrow> L' j = L1 j"
    and k3: "placedWithin cols L' ?B (b1 + NODE_GAP_Y) (y' - NODE_GAP_Y)"
    by simp_all
  have sub: "?A - ?B \<subseteq> ?A" by (rule Diff_subset)
  from sub n3 have "placedWithin cols L1 (?A - ?B) y b1"
    by (rule placedWithin_subset)
  moreover have "\<forall>j \<in> ?A - ?B. L' j = L1 j"
  proof
    fix j assume "j \<in> ?A - ?B"
    then have "j \<notin> ?B" by blast
    with k2 show "L' j = L1 j" by simp
  qed
  ultimately have rest: "placedWithin cols L' (?A - ?B) y b1"
    by (rule placedWithin_cong [rotated])
  have gap: "0 \<le> NODE_GAP_Y" by (simp add: NODE_GAP_Y_def)
  from rest k3 have "placedWithin cols L' ((?A - ?B) \<union> ?B) y (y' - NODE_GAP_Y)"
    by (rule placedWithin_union) (use n1 k1 gap in simp_all)
  moreover have "(?A - ?B) \<union> ?B = ?A \<union> ?B" by (rule Un_Diff_cancel2)
  ultimately have all: "placedWithin cols L' (?A \<union> ?B) y (y' - NODE_GAP_Y)" by (rule subst [rotated])
  have le: "y \<le> y'" using n1 k1 gap by simp
  have out: "\<forall>j. j \<notin> ?A \<union> ?B \<longrightarrow> L' j = L j" using n2 k2 by simp
  have "(\<Union>c \<in> set (c # cs). descendants cols (col_id c)) = ?A \<union> ?B" by simp
  with all le out show ?case by presburger
qed

lemma positionNode_placed:
  assumes acyc: "acyclic (parentRel cols)"
    and heights: "\<forall>k h. hs k = Some h \<longrightarrow> 0 \<le> h"
    and "positionNode n cols hs k x y L = Some (L', btm)"
  shows "y \<le> btm \<and> (\<forall>j. j \<notin> descendants cols k \<longrightarrow> L' j = L j)
       \<and> placedWithin cols L' (descendants cols k) y btm"
  using assms(3)
proof (induction n arbitrary: k x y L L' btm)
  case 0
  then show ?case by simp
next
  case (Suc n)
  let ?h = "heightOf hs k"
  let ?e = "\<lparr>pos_x = x, pos_y = y + ?h / 2, pos_height = ?h\<rparr>"
  let ?placed = "L(k \<mapsto> ?e)"
  let ?kids = "getChildren cols (Some k)"
  let ?D = "\<Union>c \<in> set ?kids. descendants cols (col_id c)"
  have h: "0 \<le> ?h" using heights by (rule heightOf_nonneg)
  have e: "rectTop ?e = y" "rectBottom ?e = y + ?h"
    by (simp_all add: rectTop_def rectBottom_def)
  have desc: "descendants cols k = insert k ?D"
    by (rule descendants_unfold)
  show ?case
  proof (cases "?kids = []")
    case True
    with Suc.prems have res: "L' = ?placed" "btm = y + ?h" by (simp_all add: Let_def)
    have "placedWithin cols L' (insert k {}) y btm"
      by (rule placedWithin_insert_root [OF placedWithin_empty, where e = ?e and hi' = btm])
        (simp_all add: res e)
    moreover have "descendants cols k = {k}" using desc True by simp
    moreover have "\<forall>j. j \<notin> {k} \<longrightarrow> L' j = L j" by (simp add: res)
    moreover have "y \<le> btm" using h by (simp add: res)
    ultimately show ?thesis by presburger
  next
    case False
    with Suc.prems obtain y' where
      kids: "positionChildren n cols hs ?kids (x + NODE_WIDTH + NODE_GAP_X) y ?placed = Some (L', y')"
      and btm: "btm = max (y + ?h) (y' - NODE_GAP_Y)"
      by (auto simp: Let_def split: option.splits)
    have "y \<le> y'
       \<and> (\<forall>j. j \<notin> ?D \<longrightarrow> L' j = ?placed j)
       \<and> placedWithin cols L' ?D y (y' - NODE_GAP_Y)"
      using Suc.IH kids by (rule positionChildren_placed)
    then have k2: "\<forall>j. j \<notin> ?D \<longrightarrow> L' j = ?placed j"
      and k3: "placedWithin cols L' ?D y (y' - NODE_GAP_Y)"
      by simp_all
    have "k \<notin> ?D"
      using child_not_ancestor [OF acyc] by blast
    with k2 have root: "L' k = Some ?e" by simp
    have "placedWithin cols L' (insert k ?D) y btm"
    proof (rule placedWithin_insert_root [OF k3 root])
      show "y \<le> rectTop ?e" "rectBottom ?e \<le> btm" "y' - NODE_GAP_Y \<le> btm"
        by (simp_all add: e btm)
      show "\<forall>j \<in> ?D. related cols k j"
        using desc by (auto intro!: related_descendant)
    qed
    moreover have "\<forall>j. j \<notin> insert k ?D \<longrightarrow> L' j = L j" using k2 by simp
    moreover have "y \<le> btm" using h by (simp add: btm)
    ultimately show ?thesis by (simp add: desc)
  qed
qed

lemma positionChildren_snoc:
  "positionChildren n cols hs (cs @ [c]) x y L =
     (case positionChildren n cols hs cs x y L of
        None \<Rightarrow> None
      | Some (L1, y1) \<Rightarrow>
          (case positionNode n cols hs (col_id c) x y1 L1 of
             None \<Rightarrow> None
           | Some (L2, b) \<Rightarrow> Some (L2, b + NODE_GAP_Y)))"
  by (induction cs arbitrary: y L) (auto split: option.splits)

lemma positionNode_bottom:
  assumes "positionNode (Suc n) cols hs k x y L = Some (L', btm)"
  shows "if getChildren cols (Some k) = [] then btm = y + heightOf hs k
         else \<exists>L1 y1 lastBottom.
                positionChildren n cols hs (butlast (getChildren cols (Some k)))
                  (x + NODE_WIDTH + NODE_GAP_X) y
                  (L(k \<mapsto> \<lparr>pos_x = x, pos_y = y + heightOf hs k / 2, pos_height = heightOf hs k\<rparr>))
                  = Some (L1, y1)
                \<and> positionNode n cols hs (col_id (last (getChildren cols (Some k))))
                    (x + NODE_WIDTH + NODE_GAP_X) y1 L1 = Some (L', lastBottom)
                \<and> btm = max (y + heightOf hs k) lastBottom"
proof (cases "getChildren cols (Some k) = []")
  case True
  with assms show ?thesis by (simp add: Let_def)
next
  case False
  let ?placed = "L(k \<mapsto> \<lparr>pos_x = x, pos_y = y + heightOf hs k / 2, pos_height = heightOf hs k\<rparr>)"
  from False have kids: "getChildren cols (Some k)
      = butlast (getChildren cols (Some k)) @ [last (getChildren cols (Some k))]"
    by simp
  from assms False obtain y' where
    run: "positionChildren n cols hs (getChildren cols (Some k)) (x + NODE_WIDTH + NODE_GAP_X) y ?placed
            = Some (L', y')"
    and btm: "btm = max (y + heightOf hs k) (y' - NODE_GAP_Y)"
    by (auto simp: Let_def split: option.splits)
  from run have "positionChildren n cols hs
      (butlast (getChildren cols (Some k)) @ [last (getChildren cols (Some k))])
      (x + NODE_WIDTH + NODE_GAP_X) y ?placed = Some (L', y')"
    using kids by simp
  then obtain L1 y1 lastBottom where
    "positionChildren n cols hs (butlast (getChildren cols (Some k)))
       (x + NODE_WIDTH + NODE_GAP_X) y ?placed = Some (L1, y1)"
    "positionNode n cols hs (col_id (last (getChildren cols (Some k))))
       (x + NODE_WIDTH + NODE_GAP_X) y1 L1 = Some (L', lastBottom)"
    "y' = lastBottom + NODE_GAP_Y"
    unfolding positionChildren_snoc by (auto split: option.splits)
  with btm False show ?thesis by auto
qed

lemma calculateLayout_depth_mono:
  "calculateLayout n cols hs = Some L \<Longrightarrow> n \<le> m \<Longrightarrow> calculateLayout m cols hs = Some L"
  by (auto simp: calculateLayout_def dest: positionChildren_depth_mono)

lemma calculateLayout_separated:
  assumes "acyclic (parentRel cols)"
    and "\<forall>k h. hs k = Some h \<longrightarrow> 0 \<le> h"
    and "calculateLayout m cols hs = Some L"
    and "L a = Some ea" and "L b = Some eb" and "\<not> related cols a b"
  shows "rectBottom ea + NODE_GAP_Y \<le> rectTop eb \<or> rectBottom eb + NODE_GAP_Y \<le> rectTop ea"
proof -
  let ?roots = "getChildren cols None"
  let ?D = "\<Union>c \<in> set ?roots. descendants cols (col_id c)"
  from assms(3) obtain y' where
    run: "positionChildren m cols hs ?roots 0 0 Map.empty = Some (L, y')"
    by (auto simp: calculateLayout_def)
  have "0 \<le> y' \<and> (\<forall>j. j \<notin> ?D \<longrightarrow> L j = Map.empty j)
       \<and> placedWithin cols L ?D 0 (y' - NODE_GAP_Y)"
    using positionNode_placed [OF assms(1,2)] run by (rule positionChildren_placed)
  then have out: "\<forall>j. j \<notin> ?D \<longrightarrow> L j = None"
    and placed: "placedWithin cols L ?D 0 (y' - NODE_GAP_Y)"
    by simp_all
  from out assms(4,5) have ab: "a \<in> ?D" "b \<in> ?D" by auto
  from placed have "\<forall>a \<in> ?D. \<forall>b \<in> ?D. \<not> related cols a b \<longrightarrow>
      rectBottom (the (L a)) + NODE_GAP_Y \<le> rectTop (the (L b))
      \<or> rectBottom (the (L b)) + NODE_GAP_Y \<le> rectTop (the (L a))"
    unfolding placedWithin_def by (rule conjunct2)
  from this ab(1) have "\<forall>b \<in> ?D. \<not> related cols a b \<longrightarrow>
      rectBottom (the (L a)) + NODE_GAP_Y \<le> rectTop (the (L b))
      \<or> rectBottom (the (L b)) + NODE_GAP_Y \<le> rectTop (the (L a))"
    by (rule bspec)
  from this ab(2) have "\<not> related cols a b \<longrightarrow>
      rectBottom (the (L a)) + NODE_GAP_Y \<le> rectTop (the (L b))
      \<or> rectBottom (the (L b)) + NODE_GAP_Y \<le> rectTop (the (L a))"
    by (rule bspec)
  with assms(4-6) show ?thesis by simp
qed

section \<open>No two subtrees overlap\<close>

text \<open>
  The heights that the layout reads are never negative: the map starts empty,
  \<^verbatim>\<open>handleNodeResize\<close> stores the measured height of a box, which is not
  negative, and a close only removes entries.
\<close>

lemma nodeHeights_nonneg:
  shows "\<forall>k h. (Map.empty :: string \<rightharpoonup> real) k = Some h \<longrightarrow> 0 \<le> h"
    and "0 \<le> height \<Longrightarrow> \<forall>k h. prev k = Some h \<longrightarrow> 0 \<le> h \<Longrightarrow>
           \<forall>k h. handleNodeResize nodeId height prev k = Some h \<longrightarrow> 0 \<le> h"
    and "\<forall>k h. prev k = Some h \<longrightarrow> 0 \<le> h \<Longrightarrow>
           \<forall>k h. (prev |` (- toDelete)) k = Some h \<longrightarrow> 0 \<le> h"
  by (auto simp: handleNodeResize_def restrict_map_def split: if_splits)

text \<open>
  C2. For a column list whose parent links are acyclic and every height map
  that the application holds (its heights are measured and not negative):

  \<^item> each child is placed from where the subtree of the sibling before it ends,
    plus the vertical gap;
  \<^item> the bottom that a node reports for its subtree is its own bottom when it
    has no child, and otherwise the larger of its own bottom and the bottom
    reported for its last child;
  \<^item> the layout is computed (at every recursion depth from some depth on, with
    one result), and the rectangles of two nodes of which neither is a
    descendant of the other do not overlap vertically: one ends at least the
    vertical gap above the other, whether or not they share an \<open>x\<close>.
\<close>

theorem calculateLayout_no_overlap:
  assumes "acyclic (parentRel cols)"
    and "\<forall>k h. hs k = Some h \<longrightarrow> 0 \<le> h"
  shows "positionChildren d cols hs (child # rest) x y L0 =
           (case positionNode d cols hs (col_id child) x y L0 of
              None \<Rightarrow> None
            | Some (L1, childSubtreeBottom) \<Rightarrow>
                positionChildren d cols hs rest x (childSubtreeBottom + NODE_GAP_Y) L1)
       \<and> (positionNode (Suc d) cols hs k x y L0 = Some (L2, btm) \<longrightarrow>
           (if getChildren cols (Some k) = [] then btm = y + heightOf hs k
            else \<exists>L1 y1 lastBottom.
                   positionChildren d cols hs (butlast (getChildren cols (Some k)))
                     (x + NODE_WIDTH + NODE_GAP_X) y
                     (L0(k \<mapsto> \<lparr>pos_x = x, pos_y = y + heightOf hs k / 2,
                                   pos_height = heightOf hs k\<rparr>)) = Some (L1, y1)
                   \<and> positionNode d cols hs (col_id (last (getChildren cols (Some k))))
                       (x + NODE_WIDTH + NODE_GAP_X) y1 L1 = Some (L2, lastBottom)
                   \<and> btm = max (y + heightOf hs k) lastBottom))
       \<and> (\<exists>n L. (\<forall>m \<ge> n. calculateLayout m cols hs = Some L)
           \<and> (\<forall>a b ea eb. L a = Some ea \<and> L b = Some eb \<and> \<not> related cols a b \<longrightarrow>
                  \<not> overlapsVertically ea eb
                  \<and> (rectBottom ea + NODE_GAP_Y \<le> rectTop eb
                     \<or> rectBottom eb + NODE_GAP_Y \<le> rectTop ea)))"
proof (intro conjI)
  show "positionChildren d cols hs (child # rest) x y L0 =
           (case positionNode d cols hs (col_id child) x y L0 of
              None \<Rightarrow> None
            | Some (L1, childSubtreeBottom) \<Rightarrow>
                positionChildren d cols hs rest x (childSubtreeBottom + NODE_GAP_Y) L1)"
    by simp
  show "positionNode (Suc d) cols hs k x y L0 = Some (L2, btm) \<longrightarrow>
           (if getChildren cols (Some k) = [] then btm = y + heightOf hs k
            else \<exists>L1 y1 lastBottom.
                   positionChildren d cols hs (butlast (getChildren cols (Some k)))
                     (x + NODE_WIDTH + NODE_GAP_X) y
                     (L0(k \<mapsto> \<lparr>pos_x = x, pos_y = y + heightOf hs k / 2,
                                   pos_height = heightOf hs k\<rparr>)) = Some (L1, y1)
                   \<and> positionNode d cols hs (col_id (last (getChildren cols (Some k))))
                       (x + NODE_WIDTH + NODE_GAP_X) y1 L1 = Some (L2, lastBottom)
                   \<and> btm = max (y + heightOf hs k) lastBottom)"
    using positionNode_bottom by blast
  from calculateLayout_returns [OF assms(1), of hs] obtain n L
    where L: "\<forall>m \<ge> n. calculateLayout m cols hs = Some L" by blast
  then have run: "calculateLayout n cols hs = Some L" by simp
  have "\<not> overlapsVertically ea eb
        \<and> (rectBottom ea + NODE_GAP_Y \<le> rectTop eb \<or> rectBottom eb + NODE_GAP_Y \<le> rectTop ea)"
    if "L a = Some ea" "L b = Some eb" "\<not> related cols a b" for a b ea eb
  proof -
    from calculateLayout_separated [OF assms run that]
    have sep: "rectBottom ea + NODE_GAP_Y \<le> rectTop eb \<or> rectBottom eb + NODE_GAP_Y \<le> rectTop ea" .
    then show ?thesis
      by (auto simp: overlapsVertically_def NODE_GAP_Y_def)
  qed
  with L show "\<exists>n L. (\<forall>m \<ge> n. calculateLayout m cols hs = Some L)
           \<and> (\<forall>a b ea eb. L a = Some ea \<and> L b = Some eb \<and> \<not> related cols a b \<longrightarrow>
                  \<not> overlapsVertically ea eb
                  \<and> (rectBottom ea + NODE_GAP_Y \<le> rectTop eb
                     \<or> rectBottom eb + NODE_GAP_Y \<le> rectTop ea))"
    by blast
qed

text \<open>
  The example forest: the root has the children \<open>A\<close> (height 100) and \<open>C\<close> (height
  150), and \<open>A\<close> has the child \<open>A1\<close> (height 300). \<open>C\<close> is placed below the whole
  subtree of \<open>A\<close>, so \<open>A1\<close> and \<open>C\<close> do not overlap.
\<close>

theorem calculateLayout_no_overlap_witness:
  "acyclic (parentRel exampleForest)
   \<and> calculateLayout (Suc (Suc (Suc 0))) exampleForest exampleHeights \<noteq> None
   \<and> the (calculateLayout (Suc (Suc (Suc 0))) exampleForest exampleHeights) ''A1''
       = Some \<lparr>pos_x = 1200, pos_y = 150, pos_height = 300\<rparr>
   \<and> the (calculateLayout (Suc (Suc (Suc 0))) exampleForest exampleHeights) ''C''
       = Some \<lparr>pos_x = 600, pos_y = 425, pos_height = 150\<rparr>
   \<and> \<not> related exampleForest ''A1'' ''C''
   \<and> \<not> overlapsVertically \<lparr>pos_x = 1200, pos_y = 150, pos_height = 300\<rparr>
                            \<lparr>pos_x = 600, pos_y = 425, pos_height = 150\<rparr>"
proof -
  let ?L = "the (calculateLayout (Suc (Suc (Suc 0))) exampleForest exampleHeights)"
  have "parentRel exampleForest = {(''root'', ''A''), (''A'', ''A1''), (''root'', ''C'')}"
    by (auto simp: parentRel_def exampleForest_def exampleChild_def exampleTrunk_def exampleRoot_def)
  then have ac: "acyclic (parentRel exampleForest)"
    by (intro acyclicI_order [where f = "\<lambda>k. if k = ''root'' then 3 else if k = ''A'' then 2 else (1::nat)"])
      auto
  have hs: "\<forall>k h. exampleHeights k = Some h \<longrightarrow> 0 \<le> h"
    by (auto simp: exampleHeights_def split: if_splits)
  have kidsA1: "getChildren exampleForest (Some ''A1'') = []"
    and kidsC: "getChildren exampleForest (Some ''C'') = []"
    by (simp_all add: getChildren_def exampleForest_def exampleChild_def exampleTrunk_def exampleRoot_def)
  have "descendants exampleForest ''A1'' = {''A1''}"
    by (subst descendants_unfold) (simp add: kidsA1)
  moreover have "descendants exampleForest ''C'' = {''C''}"
    by (subst descendants_unfold) (simp add: kidsC)
  ultimately have unrel: "\<not> related exampleForest ''A1'' ''C''"
    by (simp add: related_def)
  have run: "calculateLayout (Suc (Suc (Suc 0))) exampleForest exampleHeights \<noteq> None"
    by (simp add: calculateLayout_def getChildren_def Let_def exampleForest_def exampleChild_def
        exampleTrunk_def exampleRoot_def)
  have a1: "?L ''A1'' = Some \<lparr>pos_x = 1200, pos_y = 150, pos_height = 300\<rparr>"
    and c: "?L ''C'' = Some \<lparr>pos_x = 600, pos_y = 425, pos_height = 150\<rparr>"
    by (simp_all add: calculateLayout_def getChildren_def Let_def heightOf_def exampleHeights_def
        exampleForest_def exampleChild_def exampleTrunk_def exampleRoot_def
        NODE_WIDTH_def NODE_GAP_X_def NODE_GAP_Y_def NODE_DEFAULT_HEIGHT_def)
  from calculateLayout_no_overlap [OF ac hs] obtain n L where
    L: "\<forall>m \<ge> n. calculateLayout m exampleForest exampleHeights = Some L"
    and sep: "\<forall>a b ea eb. L a = Some ea \<and> L b = Some eb \<and> \<not> related exampleForest a b \<longrightarrow>
                 \<not> overlapsVertically ea eb
                 \<and> (rectBottom ea + NODE_GAP_Y \<le> rectTop eb \<or> rectBottom eb + NODE_GAP_Y \<le> rectTop ea)"
    by blast
  from run have "calculateLayout (Suc (Suc (Suc 0))) exampleForest exampleHeights = Some ?L"
    by simp
  then have "calculateLayout (max n (Suc (Suc (Suc 0)))) exampleForest exampleHeights = Some ?L"
    by (rule calculateLayout_depth_mono) simp
  with L have "L = ?L" by simp
  with sep a1 c unrel
  have "\<not> overlapsVertically \<lparr>pos_x = 1200, pos_y = 150, pos_height = 300\<rparr>
                            \<lparr>pos_x = 600, pos_y = 425, pos_height = 150\<rparr>"
    by blast
  with ac run a1 c unrel show ?thesis by simp
qed

section \<open>The subtree that a close removes\<close>

lemma flatMapDescendants_returns:
  assumes "\<forall>c \<in> set cs. getDescendants n cols (col_id c) \<noteq> None"
  shows "flatMapDescendants n cols cs \<noteq> None"
  using assms by (induction cs) (auto split: option.splits)

lemma getDescendants_returns:
  assumes "acyclic (parentRel cols)"
  shows "\<exists>n. \<forall>m \<ge> n. getDescendants m cols k \<noteq> None"
proof -
  have "wf ((parentRel cols)\<inverse>)"
    using finite_parentRel assms by (rule finite_acyclic_wf_converse)
  then show ?thesis
  proof (induction k rule: wf_induct_rule)
    case (less k)
    have "\<forall>c \<in> set (getChildren cols (Some k)). \<exists>n. \<forall>m \<ge> n. getDescendants m cols (col_id c) \<noteq> None"
      using less.IH child_in_parentRel by blast
    from uniform_bound [OF this] obtain n
      where n: "\<forall>c \<in> set (getChildren cols (Some k)). \<forall>m \<ge> n. getDescendants m cols (col_id c) \<noteq> None"
      by blast
    have "getDescendants m cols k \<noteq> None" if "m \<ge> Suc n" for m
    proof -
      from that obtain m' where m': "m = Suc m'" "m' \<ge> n"
        by (cases m) auto
      have "flatMapDescendants m' cols (getChildren cols (Some k)) \<noteq> None"
        using n m'(2) by (intro flatMapDescendants_returns) blast
      then show ?thesis
        by (auto simp: m'(1) Let_def getChildren_def)
    qed
    then show ?case by blast
  qed
qed

lemma getDescendants_depth_mono:
  "getDescendants n cols k = Some r \<Longrightarrow> n \<le> m \<Longrightarrow> getDescendants m cols k = Some r"
  and flatMapDescendants_depth_mono:
  "flatMapDescendants n cols cs = Some r \<Longrightarrow> n \<le> m \<Longrightarrow> flatMapDescendants m cols cs = Some r"
proof (induction n cols k and n cols cs arbitrary: m r and m r
    rule: getDescendants_flatMapDescendants.induct)
  case (1 columns nodeId)
  then show ?case by simp
next
  case (2 depth columns nodeId)
  from "2.prems"(2) obtain m' where m': "m = Suc m'" "depth \<le> m'"
    by (cases m) auto
  from "2.prems"(1) obtain below where
    below: "flatMapDescendants depth columns (filter (\<lambda>c. parentId c = Some nodeId) columns) = Some below"
    and r: "r = nodeId # below"
    by (auto simp: Let_def)
  from "2.IH" [OF refl below m'(2)] r show ?case
    by (simp add: m'(1) Let_def)
next
  case (3 depth columns)
  then show ?case by simp
next
  case (4 depth columns c rest)
  from "4.prems"(1) obtain ds more where
    one: "getDescendants depth columns (col_id c) = Some ds"
    and two: "flatMapDescendants depth columns rest = Some more"
    and r: "r = ds @ more"
    by (auto split: option.splits)
  from "4.IH"(1) [OF one "4.prems"(2)] "4.IH"(2) [OF one two "4.prems"(2)] r
  show ?case by simp
qed

lemma set_flatMapDescendants:
  assumes node: "\<And>k ds. getDescendants n cols k = Some ds \<Longrightarrow> set ds = descendants cols k"
    and "flatMapDescendants n cols cs = Some r"
  shows "set r = (\<Union>c \<in> set cs. descendants cols (col_id c))"
  using assms(2)
proof (induction cs arbitrary: r)
  case Nil
  then show ?case by simp
next
  case (Cons c cs)
  from Cons.prems obtain ds more where
    one: "getDescendants n cols (col_id c) = Some ds"
    and two: "flatMapDescendants n cols cs = Some more"
    and r: "r = ds @ more"
    by (auto split: option.splits)
  from node [OF one] Cons.IH [OF two] r show ?case by auto
qed

lemma set_getDescendants:
  "getDescendants n cols k = Some ds \<Longrightarrow> set ds = descendants cols k"
proof (induction n arbitrary: k ds)
  case 0
  then show ?case by simp
next
  case (Suc n)
  from Suc.prems obtain below where
    below: "flatMapDescendants n cols (getChildren cols (Some k)) = Some below"
    and ds: "ds = k # below"
    by (auto simp: Let_def getChildren_def)
  have "set below = (\<Union>c \<in> set (getChildren cols (Some k)). descendants cols (col_id c))"
    using Suc.IH below by (rule set_flatMapDescendants)
  with ds show ?case
    by (subst descendants_unfold) simp
qed

lemma parent_not_descendant:
  assumes "acyclic (parentRel cols)" and "(p, k) \<in> parentRel cols"
  shows "p \<notin> descendants cols k"
proof
  assume "p \<in> descendants cols k"
  then have "(k, p) \<in> (parentRel cols)\<^sup>*" by (simp add: descendants_def)
  with assms(2) have "(p, p) \<in> (parentRel cols)\<^sup>+"
    by (rule rtrancl_into_trancl2)
  with assms(1) show False by (simp add: acyclic_def)
qed

text \<open>
  C5 (as amended). For a column list whose parent links are acyclic and a column
  \<open>col\<close> of it that has a parent \<open>p\<close> (only such a column offers the close
  button), the close returns, at every recursion depth from some depth on and
  with one result. It removes exactly the columns whose id is the closed id or
  a descendant of it, and exactly the entries of those ids from the height map
  and from the offset map; every other column and entry stays as it was. When
  the selected id lies in the removed subtree the selection becomes \<open>p\<close>, which
  is not removed; otherwise the selection is kept. So the selection names a
  column afterwards whenever it, and \<open>p\<close>, named one before.
\<close>

theorem handleCloseColumn_subtree:
  assumes "acyclic (parentRel (columns st))"
    and "find (\<lambda>c. col_id c = columnId) (columns st) = Some col"
    and "parentId col = Some p" and "p \<noteq> []"
  shows "onClose d col = Some (handleCloseColumn d (col_id col))
       \<and> (\<exists>n st'. (\<forall>m \<ge> n. handleCloseColumn m columnId st = Inr st')
            \<and> columns st' = filter (\<lambda>c. col_id c \<notin> descendants (columns st) columnId) (columns st)
            \<and> (\<forall>k. nodeHeights st' k =
                     (if k \<in> descendants (columns st) columnId then None else nodeHeights st k))
            \<and> (\<forall>k. nodeOffsets st' k =
                     (if k \<in> descendants (columns st) columnId then None else nodeOffsets st k))
            \<and> selectedColumnId st' =
                 (if selectedColumnId st \<in> descendants (columns st) columnId then p
                  else selectedColumnId st)
            \<and> p \<notin> descendants (columns st) columnId
            \<and> (p \<in> col_id ` set (columns st) \<and> selectedColumnId st \<in> col_id ` set (columns st)
                 \<longrightarrow> selectedColumnId st' \<in> col_id ` set (columns st')))"
proof
  show "onClose d col = Some (handleCloseColumn d (col_id col))"
    using assms(3,4) by (simp add: onClose_def truthy_def)
next
  let ?D = "descendants (columns st) columnId"
  from assms(2) have col: "col \<in> set (columns st)" "col_id col = columnId"
    by (auto simp: find_Some_iff)
  with assms(3) have edge: "(p, columnId) \<in> parentRel (columns st)"
    by (auto simp: parentRel_def)
  have pD: "p \<notin> ?D"
    using assms(1) edge by (rule parent_not_descendant)
  from getDescendants_returns [OF assms(1), of columnId] obtain n
    where "\<forall>m \<ge> n. getDescendants m (columns st) columnId \<noteq> None" by blast
  then obtain ds where ds: "getDescendants n (columns st) columnId = Some ds"
    by auto
  then have all: "\<forall>m \<ge> n. getDescendants m (columns st) columnId = Some ds"
    using getDescendants_depth_mono by blast
  have set: "set ds = ?D" using ds by (rule set_getDescendants)
  define st' where "st' = st\<lparr>columns := filter (\<lambda>c. col_id c \<notin> ?D) (columns st),
      nodeHeights := nodeHeights st |` (- ?D), nodeOffsets := nodeOffsets st |` (- ?D),
      selectedColumnId := (if selectedColumnId st \<in> ?D then p else selectedColumnId st)\<rparr>"
  have run: "\<forall>m \<ge> n. handleCloseColumn m columnId st = Inr st'"
    using all assms(2-4)
    by (auto simp: handleCloseColumn_def Let_def set st'_def truthy_def)
  have sel: "selectedColumnId st' \<in> col_id ` set (columns st')"
    if "p \<in> col_id ` set (columns st)" "selectedColumnId st \<in> col_id ` set (columns st)"
    using that pD by (auto simp: st'_def)
  have "columns st' = filter (\<lambda>c. col_id c \<notin> ?D) (columns st)"
    "\<forall>k. nodeHeights st' k = (if k \<in> ?D then None else nodeHeights st k)"
    "\<forall>k. nodeOffsets st' k = (if k \<in> ?D then None else nodeOffsets st k)"
    "selectedColumnId st' = (if selectedColumnId st \<in> ?D then p else selectedColumnId st)"
    by (simp_all add: st'_def restrict_map_def)
  with run pD sel
  show "\<exists>n st'. (\<forall>m \<ge> n. handleCloseColumn m columnId st = Inr st')
            \<and> columns st' = filter (\<lambda>c. col_id c \<notin> ?D) (columns st)
            \<and> (\<forall>k. nodeHeights st' k = (if k \<in> ?D then None else nodeHeights st k))
            \<and> (\<forall>k. nodeOffsets st' k = (if k \<in> ?D then None else nodeOffsets st k))
            \<and> selectedColumnId st' = (if selectedColumnId st \<in> ?D then p else selectedColumnId st)
            \<and> p \<notin> ?D
            \<and> (p \<in> col_id ` set (columns st) \<and> selectedColumnId st \<in> col_id ` set (columns st)
                 \<longrightarrow> selectedColumnId st' \<in> col_id ` set (columns st'))"
    by blast
qed

lemma exampleClosable_columns: "columns exampleClosable = exampleForest"
  by (simp add: exampleClosable_def exampleState_def)

lemma exampleForest_parentRel:
  "parentRel exampleForest = {(''root'', ''A''), (''A'', ''A1''), (''root'', ''C'')}"
  by (auto simp: parentRel_def exampleForest_def exampleChild_def exampleTrunk_def exampleRoot_def)

lemma exampleClosable_acyclic: "acyclic (parentRel (columns exampleClosable))"
  unfolding exampleClosable_columns exampleForest_parentRel
  by (intro acyclicI_order
        [where f = "\<lambda>k. if k = ''root'' then 3 else if k = ''A'' then 2 else (1::nat)"])
    auto

lemma exampleClosable_find:
  "find (\<lambda>c. col_id c = ''A'') (columns exampleClosable) = Some (exampleChild ''A'' ''root'')"
  by (simp add: exampleClosable_columns exampleForest_def exampleChild_def exampleTrunk_def
      exampleRoot_def)

lemma exampleForest_children_A:
  "getChildren exampleForest (Some ''A'') = [exampleChild ''A1'' ''A'']"
  and exampleForest_children_A1: "getChildren exampleForest (Some ''A1'') = []"
  by (simp_all add: getChildren_def exampleForest_def exampleChild_def exampleTrunk_def
      exampleRoot_def)

lemma exampleForest_descendants_A1: "descendants exampleForest ''A1'' = {''A1''}"
  by (subst descendants_unfold) (simp add: exampleForest_children_A1)

lemma exampleChild_id: "col_id (exampleChild ''A1'' ''A'') = ''A1''"
  by (simp add: exampleChild_def)

lemma exampleClosable_descendants_A:
  "descendants (columns exampleClosable) ''A'' = {''A'', ''A1''}"
  unfolding exampleClosable_columns
  by (subst descendants_unfold)
    (simp add: exampleForest_children_A exampleForest_descendants_A1 exampleChild_id)

text \<open>
  In the example forest with \<open>A1\<close> selected, closing \<open>A\<close> removes \<open>A\<close> and \<open>A1\<close> from
  the columns and from both maps, keeps the root and \<open>C\<close>, and selects the root.
\<close>

theorem handleCloseColumn_subtree_witness:
  "acyclic (parentRel (columns exampleClosable))
   \<and> find (\<lambda>c. col_id c = ''A'') (columns exampleClosable) = Some (exampleChild ''A'' ''root'')
   \<and> parentId (exampleChild ''A'' ''root'') = Some ''root''
   \<and> (\<exists>n st'. (\<forall>m \<ge> n. handleCloseColumn m ''A'' exampleClosable = Inr st')
          \<and> map col_id (columns st') = [''root'', ''C'']
          \<and> nodeHeights st' ''A'' = None \<and> nodeHeights st' ''A1'' = None
          \<and> nodeHeights st' ''C'' = Some 150
          \<and> nodeOffsets st' ''A1'' = None
          \<and> selectedColumnId st' = ''root'')"
proof -
  have p: "parentId (exampleChild ''A'' ''root'') = Some ''root''"
    by (simp add: exampleChild_def)
  have ne: "''root'' \<noteq> []" by simp
  have "\<exists>n st'. (\<forall>m \<ge> n. handleCloseColumn m ''A'' exampleClosable = Inr st')
            \<and> columns st' = filter (\<lambda>c. col_id c \<notin> descendants (columns exampleClosable) ''A'')
                               (columns exampleClosable)
            \<and> (\<forall>k. nodeHeights st' k =
                     (if k \<in> descendants (columns exampleClosable) ''A'' then None
                      else nodeHeights exampleClosable k))
            \<and> (\<forall>k. nodeOffsets st' k =
                     (if k \<in> descendants (columns exampleClosable) ''A'' then None
                      else nodeOffsets exampleClosable k))
            \<and> selectedColumnId st' =
                 (if selectedColumnId exampleClosable \<in> descendants (columns exampleClosable) ''A''
                  then ''root'' else selectedColumnId exampleClosable)
            \<and> ''root'' \<notin> descendants (columns exampleClosable) ''A''
            \<and> (''root'' \<in> col_id ` set (columns exampleClosable)
                  \<and> selectedColumnId exampleClosable \<in> col_id ` set (columns exampleClosable)
                 \<longrightarrow> selectedColumnId st' \<in> col_id ` set (columns st'))"
    using handleCloseColumn_subtree [OF exampleClosable_acyclic exampleClosable_find p ne, of 0] by (rule conjunct2)
  then obtain n st' where
    run: "\<forall>m \<ge> n. handleCloseColumn m ''A'' exampleClosable = Inr st'"
    and c: "columns st' = filter (\<lambda>c. col_id c \<notin> descendants (columns exampleClosable) ''A'')
               (columns exampleClosable)"
    and h: "\<forall>k. nodeHeights st' k =
               (if k \<in> descendants (columns exampleClosable) ''A'' then None
                else nodeHeights exampleClosable k)"
    and o: "\<forall>k. nodeOffsets st' k =
               (if k \<in> descendants (columns exampleClosable) ''A'' then None
                else nodeOffsets exampleClosable k)"
    and s: "selectedColumnId st' =
               (if selectedColumnId exampleClosable \<in> descendants (columns exampleClosable) ''A''
                then ''root'' else selectedColumnId exampleClosable)"
    by (elim exE conjE)
  have c': "map col_id (columns st') = [''root'', ''C'']"
    unfolding c exampleClosable_descendants_A
    by (simp add: exampleClosable_columns exampleForest_def exampleChild_def exampleTrunk_def exampleRoot_def)
  have h': "nodeHeights st' ''A'' = None" "nodeHeights st' ''A1'' = None"
    "nodeHeights st' ''C'' = Some 150"
    unfolding h [rule_format] exampleClosable_descendants_A by (simp_all add: exampleClosable_def exampleState_def exampleHeights_def)
  have o': "nodeOffsets st' ''A1'' = None"
    unfolding o [rule_format] exampleClosable_descendants_A by simp
  have s': "selectedColumnId st' = ''root''"
    unfolding s exampleClosable_descendants_A by (simp add: exampleClosable_def exampleState_def)
  have "\<exists>n st'. (\<forall>m \<ge> n. handleCloseColumn m ''A'' exampleClosable = Inr st')
          \<and> map col_id (columns st') = [''root'', ''C'']
          \<and> nodeHeights st' ''A'' = None \<and> nodeHeights st' ''A1'' = None
          \<and> nodeHeights st' ''C'' = Some 150
          \<and> nodeOffsets st' ''A1'' = None
          \<and> selectedColumnId st' = ''root''"
    by (intro exI [of _ n] exI [of _ st'] conjI run c' h' o' s')
  with exampleClosable_acyclic exampleClosable_find p show ?thesis by (intro conjI)
qed

text \<open>
  Closing a root is not offered by its column, and \<^verbatim>\<open>handleCloseColumn\<close> called
  on one selects \<^verbatim>\<open>columns[0]\<close> of the list as it was: with the roots \<open>root\<close> and
  \<open>root2\<close> and the child \<open>A\<close> of \<open>root\<close> selected, closing \<open>root\<close> leaves \<open>root2\<close>
  alone in the list and selects \<open>root\<close>, which is gone.
\<close>

theorem handleCloseColumn_root_counterexample:
  "''root'' \<in> col_id ` set (columns exampleTwoRoots)
   \<and> onClose (Suc (Suc 0)) exampleTrunk = None
   \<and> handleCloseColumn (Suc (Suc 0)) ''root'' exampleTwoRoots
       = Inr (exampleTwoRoots\<lparr>columns := [exampleSecondRoot], selectedColumnId := ''root''\<rparr>)
   \<and> handleCloseColumn (Suc (Suc (Suc 0))) ''root'' exampleTwoRoots
       = Inr (exampleTwoRoots\<lparr>columns := [exampleSecondRoot], selectedColumnId := ''root''\<rparr>)
   \<and> parentId exampleSecondRoot = None
   \<and> ''root'' \<notin> col_id ` set [exampleSecondRoot]"
  by (simp add: handleCloseColumn_def onClose_def truthy_def Let_def exampleTwoRoots_def
      exampleState_def exampleSecondRoot_def exampleChild_def exampleTrunk_def exampleRoot_def)

text \<open>
  On parent links with a cycle that the closed id reaches, the recursion of
  \<^verbatim>\<open>getDescendants\<close> does not end, whatever the depth allowed.
\<close>

lemma getDescendants_cycle: "getDescendants n [exampleLoop] ''loop'' = None"
  by (induction n) (simp_all add: exampleLoop_def exampleChild_def)

lemma handleCloseColumn_cycle:
  "handleCloseColumn n ''loop'' (exampleState\<lparr>columns := [exampleLoop]\<rparr>) = Inl RangeError"
  by (simp add: handleCloseColumn_def getDescendants_cycle)

end
